theory Spec2Isabelle
  imports Main "HOL-Library.FSet" "HOL-Library.Finite_Map"
begin

section \<open>The agent queue manager of src/server/agentQueueManager.ts\<close>

text \<open>
  \<^verbatim>\<open>AgentQueueManager\<close> limits how many agents run at once. Its state is four private
  fields: the capacity \<^verbatim>\<open>maxConcurrent\<close>, the \<^verbatim>\<open>Map\<close> of running agents keyed by id,
  the array of queued tasks and the optional spawn callback. The class performs no
  asynchronous step, so every method is a function from the state before the call to
  the state after it, together with what the call emitted.

  Conventions of the embedding:
  \<^item> \<^verbatim>\<open>maxConcurrent\<close> is a TypeScript \<^verbatim>\<open>number\<close> that is only compared with a size;
    it is an \<open>int\<close> here, so zero and negative capacities are values of the model;
  \<^item> the \<^verbatim>\<open>Map\<close> is a finite map; its \<^verbatim>\<open>size\<close> is the cardinality of its domain;
  \<^item> the array is a list: \<^verbatim>\<open>push\<close> appends at the end, \<^verbatim>\<open>shift\<close> removes the head;
  \<^item> every reading of \<^verbatim>\<open>Date.now()\<close> is an argument of the function that makes it,
    one argument for each place of the source that reads the clock;
  \<^item> the console lines and the calls of the spawn callback are the events a method
    returns, in the order in which the source emits them. A callback is a value of
    the type parameter \<open>'cb\<close>; the event \<open>CallbackCalled cb t\<close> says that
    callback \<open>cb\<close> was called with task \<open>t\<close>. In every method the callback is
    called after the last write to the fields, so the state a method returns here is
    the state in which its callback is called, and what a callback does to the manager
    is a further call; \<open>calls_with_callbacks\<close> runs the calls of a sequence with
    those of the callbacks in between.
\<close>

subsection \<open>Data\<close>

text \<open>\<^verbatim>\<open>interface AgentTask { id; type; prompt; enqueuedAt }\<close>\<close>

record AgentTask =
  task_id :: string
  task_type :: string
  prompt :: string
  enqueuedAt :: int

text \<open>\<^verbatim>\<open>interface RunningAgent { id; type; startedAt }\<close>\<close>

record RunningAgent =
  agent_id :: string
  agent_type :: string
  startedAt :: int

text \<open>The fields of the class.\<close>

record 'cb AgentQueueManager =
  maxConcurrent :: int
  runningAgents :: "(string, RunningAgent) fmap"
  queuedAgents :: "AgentTask list"
  onSpawnCallback :: "'cb option"

text \<open>The return type \<^verbatim>\<open>'running' | 'queued'\<close> of \<^verbatim>\<open>enqueueAgent\<close>.\<close>

datatype enqueue_result = Running | Queued

text \<open>
  What a call emits: the four \<^verbatim>\<open>console.log\<close> lines and the \<^verbatim>\<open>console.warn\<close> line, each
  with the values it prints, and the call of the spawn callback.
\<close>

datatype 'cb event =
    LogQueued string string nat
  | LogStarted string string nat int
  | WarnNotRunning string
  | LogCompleted string string int
  | LogSpawning string int
  | CallbackCalled 'cb AgentTask

text \<open>
  The outcome of \<^verbatim>\<open>new AgentQueueManager(...)\<close> is the object (\<open>Inr\<close>) or the error
  thrown (\<open>Inl\<close>).
\<close>

datatype error = ConfigurationError

subsection \<open>Methods\<close>

text \<open>\<^verbatim>\<open>this.runningAgents.size\<close>\<close>

definition Map_size :: "(string, RunningAgent) fmap \<Rightarrow> nat" where
  "Map_size m = fcard (fmdom m)"

text \<open>
  \<^verbatim>\<open>constructor(maxConcurrent: number = 2)\<close>: the argument is \<open>None\<close> when the caller
  leaves it out, and the default 2 is taken then. The body is one assignment; the
  two collections start empty and no callback is set.
\<close>

definition constructor :: "int option \<Rightarrow> 'cb AgentQueueManager" where
  "constructor arg =
     \<lparr> maxConcurrent = (case arg of None \<Rightarrow> 2 | Some m \<Rightarrow> m),
       runningAgents = fmempty,
       queuedAgents = [],
       onSpawnCallback = None \<rparr>"

text \<open>
  The expression \<^verbatim>\<open>new AgentQueueManager(...)\<close> runs that body. No statement of it
  throws and none inspects the argument, so the expression always yields the object.
\<close>

definition new_AgentQueueManager :: "int option \<Rightarrow> error + 'cb AgentQueueManager" where
  "new_AgentQueueManager arg = Inr (constructor arg)"

definition setSpawnCallback :: "'cb \<Rightarrow> 'cb AgentQueueManager \<Rightarrow> 'cb AgentQueueManager" where
  "setSpawnCallback callback s = s\<lparr> onSpawnCallback := Some callback \<rparr>"

text \<open>
  \<^verbatim>\<open>startAgent(task)\<close>: store the running entry under the task's id (an entry already
  stored under that id is replaced), log, and call the callback if one is set.
\<close>

definition startAgent ::
  "int \<Rightarrow> AgentTask \<Rightarrow> 'cb AgentQueueManager \<Rightarrow> 'cb event list \<times> 'cb AgentQueueManager" where
  "startAgent now task s =
     (let s' = s\<lparr> runningAgents :=
                    fmupd (task_id task)
                      \<lparr> agent_id = task_id task, agent_type = task_type task, startedAt = now \<rparr>
                      (runningAgents s) \<rparr>
      in (LogStarted (task_id task) (task_type task) (Map_size (runningAgents s')) (maxConcurrent s')
            # (case onSpawnCallback s' of
                 None \<Rightarrow> []
               | Some cb \<Rightarrow> [CallbackCalled cb task]),
          s'))"

text \<open>
  \<^verbatim>\<open>spawnNextQueued()\<close>: nothing when the queue is empty, nothing when no slot is free;
  otherwise \<^verbatim>\<open>shift\<close> the head off the queue and start it. There is no loop.
\<close>

definition spawnNextQueued ::
  "int \<Rightarrow> int \<Rightarrow> 'cb AgentQueueManager \<Rightarrow> 'cb event list \<times> 'cb AgentQueueManager" where
  "spawnNextQueued now_wait now_start s =
     (case queuedAgents s of
        [] \<Rightarrow> ([], s)
      | nextTask # rest \<Rightarrow>
          if int (Map_size (runningAgents s)) \<ge> maxConcurrent s then ([], s)
          else
            let waitTime = now_wait - enqueuedAt nextTask;
                (evs, s') = startAgent now_start nextTask (s\<lparr> queuedAgents := rest \<rparr>)
            in (LogSpawning (task_id nextTask) waitTime # evs, s'))"

text \<open>
  \<^verbatim>\<open>enqueueAgent(id, task)\<close> with \<^verbatim>\<open>task = { type, prompt }\<close>: build the task, then start it
  when the running map is smaller than the capacity, and push it on the queue otherwise.
\<close>

definition enqueueAgent ::
  "int \<Rightarrow> int \<Rightarrow> string \<Rightarrow> string \<times> string \<Rightarrow> 'cb AgentQueueManager
     \<Rightarrow> enqueue_result \<times> 'cb event list \<times> 'cb AgentQueueManager" where
  "enqueueAgent now_enq now_start ident task s =
     (let agentTask = \<lparr> task_id = ident, task_type = fst task, prompt = snd task,
                        enqueuedAt = now_enq \<rparr>
      in if int (Map_size (runningAgents s)) < maxConcurrent s then
           (let (evs, s') = startAgent now_start agentTask s in (Running, evs, s'))
         else
           (let s' = s\<lparr> queuedAgents := queuedAgents s @ [agentTask] \<rparr>
            in (Queued, [LogQueued ident (fst task) (length (queuedAgents s'))], s')))"

text \<open>
  \<^verbatim>\<open>markAgentComplete(id)\<close>: warn and return when the id is not in the running map;
  otherwise delete it, log, and call \<^verbatim>\<open>spawnNextQueued\<close>.
\<close>

definition markAgentComplete ::
  "int \<Rightarrow> int \<Rightarrow> int \<Rightarrow> string \<Rightarrow> 'cb AgentQueueManager
     \<Rightarrow> 'cb event list \<times> 'cb AgentQueueManager" where
  "markAgentComplete now_done now_wait now_start ident s =
     (case fmlookup (runningAgents s) ident of
        None \<Rightarrow> ([WarnNotRunning ident], s)
      | Some agent \<Rightarrow>
          let duration = now_done - startedAt agent;
              s1 = s\<lparr> runningAgents := fmdrop ident (runningAgents s) \<rparr>;
              (evs, s2) = spawnNextQueued now_wait now_start s1
          in (LogCompleted ident (agent_type agent) duration # evs, s2))"

definition getRunningCount :: "'cb AgentQueueManager \<Rightarrow> nat" where
  "getRunningCount s = Map_size (runningAgents s)"

definition getQueuedCount :: "'cb AgentQueueManager \<Rightarrow> nat" where
  "getQueuedCount s = length (queuedAgents s)"

definition isAgentRunning :: "string \<Rightarrow> 'cb AgentQueueManager \<Rightarrow> bool" where
  "isAgentRunning ident s = (fmlookup (runningAgents s) ident \<noteq> None)"

text \<open>\<^verbatim>\<open>getStatus()\<close> returns \<^verbatim>\<open>{ running, queued, max }\<close>, here a triple in that order.\<close>

definition getStatus :: "'cb AgentQueueManager \<Rightarrow> nat \<times> nat \<times> int" where
  "getStatus s = (Map_size (runningAgents s), length (queuedAgents s), maxConcurrent s)"

subsection \<open>Sequences of calls\<close>

text \<open>
  A caller holds one manager and calls its public methods one after the other. A call
  carries the method's arguments and the clock readings made while it runs.
\<close>

datatype 'cb method_call =
    SetSpawnCallback 'cb
  | EnqueueAgent int int string "string \<times> string"
  | MarkAgentComplete int int int string

fun call :: "'cb method_call \<Rightarrow> 'cb AgentQueueManager \<Rightarrow> 'cb event list \<times> 'cb AgentQueueManager" where
  "call (SetSpawnCallback cb) s = ([], setSpawnCallback cb s)"
| "call (EnqueueAgent now_enq now_start ident task) s = snd (enqueueAgent now_enq now_start ident task s)"
| "call (MarkAgentComplete now_done now_wait now_start ident) s =
     markAgentComplete now_done now_wait now_start ident s"

text \<open>The calls of a list in order; the events of all of them, in order.\<close>

fun calls :: "'cb method_call list \<Rightarrow> 'cb AgentQueueManager \<Rightarrow> 'cb event list \<times> 'cb AgentQueueManager" where
  "calls [] s = ([], s)"
| "calls (c # cs) s =
     (let (evs, s') = call c s; (evs', s'') = calls cs s' in (evs @ evs', s''))"

text \<open>
  The arguments of one \<^verbatim>\<open>enqueueAgent\<close> call with its two clock readings: the call, the id
  it passes, and the task record the method builds from them.
\<close>

type_synonym enqueue_args = "int \<times> int \<times> string \<times> (string \<times> string)"

fun enqueue_call :: "enqueue_args \<Rightarrow> 'cb method_call" where
  "enqueue_call (now_enq, now_start, ident, task) = EnqueueAgent now_enq now_start ident task"

fun enqueue_id :: "enqueue_args \<Rightarrow> string" where
  "enqueue_id (now_enq, now_start, ident, task) = ident"

fun enqueued_task :: "enqueue_args \<Rightarrow> AgentTask" where
  "enqueued_task (now_enq, now_start, ident, task) =
     \<lparr> task_id = ident, task_type = fst task, prompt = snd task, enqueuedAt = now_enq \<rparr>"

subsection \<open>What a sequence of calls emitted\<close>

text \<open>The calls of the spawn callback among some events: which callback, with which task.\<close>

fun callback_calls :: "'cb event list \<Rightarrow> ('cb \<times> AgentTask) list" where
  "callback_calls [] = []"
| "callback_calls (CallbackCalled cb t # evs) = (cb, t) # callback_calls evs"
| "callback_calls (_ # evs) = callback_calls evs"

text \<open>
  The number of promotions among some events: \<^verbatim>\<open>spawnNextQueued\<close> logs one line each time
  it takes a task off the queue.
\<close>

fun promotions :: "'cb event list \<Rightarrow> nat" where
  "promotions [] = 0"
| "promotions (LogSpawning i waitTime # evs) = Suc (promotions evs)"
| "promotions (_ # evs) = promotions evs"

text \<open>
  The tasks that \<^verbatim>\<open>enqueueAgent\<close> pushed on the queue (those it answered \<^verbatim>\<open>'queued'\<close> for)
  during a sequence of calls, in the order of the calls.
\<close>

fun queued_arrivals :: "'cb method_call list \<Rightarrow> 'cb AgentQueueManager \<Rightarrow> AgentTask list" where
  "queued_arrivals [] s = []"
| "queued_arrivals (EnqueueAgent now_enq now_start ident task # cs) s =
     (if fst (enqueueAgent now_enq now_start ident task s) = Queued
      then [\<lparr> task_id = ident, task_type = fst task, prompt = snd task, enqueuedAt = now_enq \<rparr>]
      else [])
     @ queued_arrivals cs (snd (call (EnqueueAgent now_enq now_start ident task) s))"
| "queued_arrivals (c # cs) s = queued_arrivals cs (snd (call c s))"

subsection \<open>Predicates on states and on sequences of calls\<close>

text \<open>The running map is no larger than the capacity.\<close>

definition within_capacity :: "'cb AgentQueueManager \<Rightarrow> bool" where
  "within_capacity s = (int (Map_size (runningAgents s)) \<le> maxConcurrent s)"

text \<open>The ids in the queue, in queue order.\<close>

definition queued_ids :: "'cb AgentQueueManager \<Rightarrow> string list" where
  "queued_ids s = map task_id (queuedAgents s)"

text \<open>
  No id is queued twice and no queued id is running. (The running map holds an id
  at most once, being a map.)
\<close>

definition ids_unique :: "'cb AgentQueueManager \<Rightarrow> bool" where
  "ids_unique s =
     (distinct (queued_ids s) \<and> list_all (\<lambda>i. \<not> isAgentRunning i s) (queued_ids s))"

text \<open>
  A sequence of calls in which each \<^verbatim>\<open>enqueueAgent\<close> passes an id that is neither
  running nor queued in the state in which it is called.
\<close>

fun fresh_enqueues :: "'cb method_call list \<Rightarrow> 'cb AgentQueueManager \<Rightarrow> bool" where
  "fresh_enqueues [] s = True"
| "fresh_enqueues (EnqueueAgent now_enq now_start ident task # cs) s =
     (\<not> isAgentRunning ident s \<and> ident \<notin> set (queued_ids s)
      \<and> fresh_enqueues cs (snd (call (EnqueueAgent now_enq now_start ident task) s)))"
| "fresh_enqueues (c # cs) s = fresh_enqueues cs (snd (call c s))"

subsection \<open>Example inputs\<close>

text \<open>The three \<^verbatim>\<open>enqueueAgent\<close> calls of the repository's test.\<close>

abbreviation (input) test_enqueues :: "enqueue_args list" where
  "test_enqueues \<equiv>
     [(10, 11, ''agent-1'', (''researcher'', ''test1'')),
      (12, 13, ''agent-2'', (''coder'', ''test2'')),
      (14, 15, ''agent-3'', (''debugger'', ''test3''))]"

text \<open>
  The state of the repository's test after its three \<^verbatim>\<open>enqueueAgent\<close> calls on a manager
  of capacity 2: two agents run, the third waits.
\<close>

abbreviation (input) three_enqueued :: "unit AgentQueueManager" where
  "three_enqueued \<equiv>
     snd (calls [EnqueueAgent 10 11 ''agent-1'' (''researcher'', ''test1''),
                 EnqueueAgent 12 13 ''agent-2'' (''coder'', ''test2''),
                 EnqueueAgent 14 15 ''agent-3'' (''debugger'', ''test3'')]
            (constructor (Some 2)))"

text \<open>
  A state with a task waiting and a slot free. \<^verbatim>\<open>agent-1\<close> is enqueued again while it
  runs; when \<^verbatim>\<open>agent-2\<close> completes, the queued \<^verbatim>\<open>agent-1\<close> is started over the running
  one, which leaves one agent running, one slot free and \<^verbatim>\<open>agent-3\<close> still queued.
\<close>

abbreviation (input) slot_free_while_waiting :: "unit AgentQueueManager" where
  "slot_free_while_waiting \<equiv>
     snd (calls [EnqueueAgent 10 11 ''agent-1'' (''researcher'', ''test1''),
                 EnqueueAgent 12 13 ''agent-2'' (''coder'', ''test2''),
                 EnqueueAgent 14 15 ''agent-1'' (''researcher'', ''again''),
                 EnqueueAgent 16 17 ''agent-3'' (''debugger'', ''test3''),
                 MarkAgentComplete 20 21 22 ''agent-2'']
            (constructor (Some 2)))"

text \<open>
  A manager of capacity 1 with callback 7 set, on which \<^verbatim>\<open>A\<close>, \<^verbatim>\<open>B\<close> and \<^verbatim>\<open>C\<close> are enqueued
  in that order: \<^verbatim>\<open>A\<close> runs, \<^verbatim>\<open>B\<close> and \<^verbatim>\<open>C\<close> wait.
\<close>

abbreviation (input) one_slot_calls :: "nat method_call list" where
  "one_slot_calls \<equiv>
     [SetSpawnCallback 7,
      EnqueueAgent 10 11 ''A'' (''researcher'', ''first''),
      EnqueueAgent 12 13 ''B'' (''coder'', ''second''),
      EnqueueAgent 14 15 ''C'' (''debugger'', ''third'')]"

text \<open>A manager of capacity 2 on which two agents run and none waits.\<close>

abbreviation (input) two_running :: "nat AgentQueueManager" where
  "two_running \<equiv>
     snd (calls [SetSpawnCallback 7,
                 EnqueueAgent 10 11 ''agent-1'' (''researcher'', ''test1''),
                 EnqueueAgent 12 13 ''agent-2'' (''coder'', ''test2'')]
            (constructor (Some 2)))"

text \<open>
  On a manager of capacity 1, \<^verbatim>\<open>agent-1\<close> is enqueued while it runs, once and twice.
\<close>

abbreviation (input) enqueued_again :: "unit AgentQueueManager" where
  "enqueued_again \<equiv>
     snd (calls [EnqueueAgent 10 11 ''agent-1'' (''researcher'', ''test1''),
                 EnqueueAgent 12 13 ''agent-1'' (''researcher'', ''test1'')]
            (constructor (Some 1)))"

abbreviation (input) enqueued_thrice :: "unit AgentQueueManager" where
  "enqueued_thrice \<equiv>
     snd (calls [EnqueueAgent 10 11 ''agent-1'' (''researcher'', ''test1''),
                 EnqueueAgent 12 13 ''agent-1'' (''researcher'', ''test1''),
                 EnqueueAgent 14 15 ''agent-1'' (''researcher'', ''test1'')]
            (constructor (Some 1)))"

subsection \<open>Callbacks that call the manager\<close>

text \<open>
  The spawn callback is the caller's function and may call the manager's public
  methods before it returns. What it does is given by a function from the callback,
  the task it is called with and the state in which it is called to the calls it
  makes, in order.
\<close>

type_synonym 'cb behaviour = "'cb \<Rightarrow> AgentTask \<Rightarrow> 'cb AgentQueueManager \<Rightarrow> 'cb method_call list"

text \<open>
  A sequence of calls together with the calls made by the callbacks. \<^verbatim>\<open>startAgent\<close> calls
  the callback as its last statement, and \<^verbatim>\<open>enqueueAgent\<close>, \<^verbatim>\<open>spawnNextQueued\<close> and
  \<^verbatim>\<open>markAgentComplete\<close> do nothing to the fields after \<^verbatim>\<open>startAgent\<close> returns. So a method
  call first runs as in \<open>call\<close>; then the calls of the callback it called run, each in
  the same way, before the method returns and the next call of the sequence starts.
  A callback's calls may call callbacks again without end; the first argument bounds
  the number of method calls, and \<open>None\<close> says that the bound was reached. The state of
  \<open>calls_with_callbacks fuel react [c] s\<close> is the state when the call \<open>c\<close> returns.
\<close>

fun calls_with_callbacks ::
  "nat \<Rightarrow> 'cb behaviour \<Rightarrow> 'cb method_call list \<Rightarrow> 'cb AgentQueueManager
     \<Rightarrow> ('cb event list \<times> 'cb AgentQueueManager) option" where
  "calls_with_callbacks fuel react [] s = Some ([], s)"
| "calls_with_callbacks 0 react (c # cs) s = None"
| "calls_with_callbacks (Suc fuel) react (c # cs) s =
     (let (evs, s1) = call c s;
          nested = concat (map (\<lambda>(cb, t). react cb t s1) (callback_calls evs))
      in case calls_with_callbacks fuel react (nested @ cs) s1 of
           None \<Rightarrow> None
         | Some (evs', s2) \<Rightarrow> Some (evs @ evs', s2))"

text \<open>A call is \<^verbatim>\<open>markAgentComplete\<close> of the id; a call is \<^verbatim>\<open>enqueueAgent\<close> of the id.\<close>

fun completes :: "string \<Rightarrow> 'cb method_call \<Rightarrow> bool" where
  "completes i (MarkAgentComplete now_done now_wait now_start ident) = (ident = i)"
| "completes i c = False"

fun enqueues :: "string \<Rightarrow> 'cb method_call \<Rightarrow> bool" where
  "enqueues i (EnqueueAgent now_enq now_start ident task) = (ident = i)"
| "enqueues i c = False"

text \<open>
  Two callbacks: \<^verbatim>\<open>t => manager.markAgentComplete(t.id)\<close>, which completes the task it is
  called with, and \<^verbatim>\<open>t => manager.markAgentComplete('agent-0')\<close>.
\<close>

definition complete_at_once :: "'cb behaviour" where
  "complete_at_once cb t s = [MarkAgentComplete 20 21 22 (task_id t)]"

definition complete_agent_0 :: "'cb behaviour" where
  "complete_agent_0 cb t s = [MarkAgentComplete 20 21 22 ''agent-0'']"

text \<open>A new manager of capacity 1 with callback 7 set.\<close>

abbreviation (input) one_slot_with_callback :: "nat AgentQueueManager" where
  "one_slot_with_callback \<equiv> snd (calls [SetSpawnCallback 7] (constructor (Some 1)))"

section \<open>The methods, case by case\<close>


lemma Map_size_fmempty: "Map_size fmempty = 0"
  by (simp add: Map_size_def)

lemma Map_size_fmupd:
  "Map_size (fmupd k v m) = (if k |\<in>| fmdom m then Map_size m else Suc (Map_size m))"
  by (simp add: Map_size_def fcard_finsert_if)

lemma Map_size_fmdrop:
  "Map_size (fmdrop k m) = (if k |\<in>| fmdom m then Map_size m - 1 else Map_size m)"
  by (simp add: Map_size_def fcard_fminus_fsingleton_if)

lemma Map_size_pos: "k |\<in>| fmdom m \<Longrightarrow> 0 < Map_size m"
  unfolding Map_size_def by (metis fcard_0_eq fempty_iff gr0I)

lemma startAgent_eq:
  "startAgent now t s =
     (LogStarted (task_id t) (task_type t)
        (Map_size (fmupd (task_id t)
          \<lparr> agent_id = task_id t, agent_type = task_type t, startedAt = now \<rparr> (runningAgents s)))
        (maxConcurrent s)
      # (case onSpawnCallback s of None \<Rightarrow> [] | Some cb \<Rightarrow> [CallbackCalled cb t]),
      s\<lparr> runningAgents := fmupd (task_id t)
          \<lparr> agent_id = task_id t, agent_type = task_type t, startedAt = now \<rparr> (runningAgents s) \<rparr>)"
  by (simp add: startAgent_def Let_def)

lemma spawnNextQueued_idle:
  "queuedAgents s = [] \<or> maxConcurrent s \<le> int (Map_size (runningAgents s))
     \<Longrightarrow> spawnNextQueued w st s = ([], s)"
  by (auto simp: spawnNextQueued_def split: list.splits)

lemma spawnNextQueued_promote:
  "queuedAgents s = t # rest \<Longrightarrow> int (Map_size (runningAgents s)) < maxConcurrent s
     \<Longrightarrow> spawnNextQueued w st s =
           (LogSpawning (task_id t) (w - enqueuedAt t)
              # fst (startAgent st t (s\<lparr> queuedAgents := rest \<rparr>)),
            snd (startAgent st t (s\<lparr> queuedAgents := rest \<rparr>)))"
  by (simp add: spawnNextQueued_def Let_def split: prod.splits)

lemma enqueueAgent_start:
  "int (Map_size (runningAgents s)) < maxConcurrent s
     \<Longrightarrow> enqueueAgent ne ns i t s =
           (Running,
            startAgent ns \<lparr> task_id = i, task_type = fst t, prompt = snd t, enqueuedAt = ne \<rparr> s)"
  by (simp add: enqueueAgent_def Let_def split: prod.splits)

lemma enqueueAgent_queue:
  "\<not> int (Map_size (runningAgents s)) < maxConcurrent s
     \<Longrightarrow> enqueueAgent ne ns i t s =
           (Queued,
            [LogQueued i (fst t) (Suc (length (queuedAgents s)))],
            s\<lparr> queuedAgents := queuedAgents s
                   @ [\<lparr> task_id = i, task_type = fst t, prompt = snd t, enqueuedAt = ne \<rparr>] \<rparr>)"
  by (simp add: enqueueAgent_def Let_def)

lemma markAgentComplete_unknown:
  "fmlookup (runningAgents s) i = None \<Longrightarrow> markAgentComplete d w st i s = ([WarnNotRunning i], s)"
  by (simp add: markAgentComplete_def)

lemma markAgentComplete_running:
  "fmlookup (runningAgents s) i = Some a
     \<Longrightarrow> markAgentComplete d w st i s =
           (LogCompleted i (agent_type a) (d - startedAt a)
              # fst (spawnNextQueued w st (s\<lparr> runningAgents := fmdrop i (runningAgents s) \<rparr>)),
            snd (spawnNextQueued w st (s\<lparr> runningAgents := fmdrop i (runningAgents s) \<rparr>)))"
  by (simp add: markAgentComplete_def Let_def split: prod.splits)

text \<open>Capacity is never written after construction.\<close>

lemma maxConcurrent_spawnNextQueued:
  "maxConcurrent (snd (spawnNextQueued w st s)) = maxConcurrent s"
  by (cases "queuedAgents s = [] \<or> maxConcurrent s \<le> int (Map_size (runningAgents s))")
     (auto simp: spawnNextQueued_idle spawnNextQueued_promote startAgent_eq neq_Nil_conv)

lemma maxConcurrent_call: "maxConcurrent (snd (call c s)) = maxConcurrent s"
proof (cases c)
  case (SetSpawnCallback cb)
  then show ?thesis by (simp add: setSpawnCallback_def)
next
  case (EnqueueAgent ne ns i t)
  then show ?thesis
    by (cases "int (Map_size (runningAgents s)) < maxConcurrent s")
       (simp_all add: enqueueAgent_start enqueueAgent_queue startAgent_eq)
next
  case (MarkAgentComplete d w st i)
  then show ?thesis
    by (cases "fmlookup (runningAgents s) i")
       (simp_all add: markAgentComplete_unknown markAgentComplete_running
          maxConcurrent_spawnNextQueued)
qed

lemma snd_calls_Cons: "snd (calls (c # cs) s) = snd (calls cs (snd (call c s)))"
  by (simp add: split_def Let_def)

lemma fst_calls_Cons:
  "fst (calls (c # cs) s) = fst (call c s) @ fst (calls cs (snd (call c s)))"
  by (simp add: split_def Let_def)

lemma maxConcurrent_calls: "maxConcurrent (snd (calls cs s)) = maxConcurrent s"
  by (induction cs arbitrary: s) (simp_all add: split_def Let_def maxConcurrent_call)


lemma within_capacity_spawnNextQueued:
  "within_capacity s \<Longrightarrow> within_capacity (snd (spawnNextQueued w st s))"
  by (cases "queuedAgents s = [] \<or> maxConcurrent s \<le> int (Map_size (runningAgents s))")
     (auto simp: spawnNextQueued_idle spawnNextQueued_promote startAgent_eq neq_Nil_conv
        within_capacity_def Map_size_fmupd)

lemma within_capacity_call: "within_capacity s \<Longrightarrow> within_capacity (snd (call c s))"
proof (cases c)
  case (SetSpawnCallback cb)
  assume "within_capacity s"
  with SetSpawnCallback show ?thesis by (simp add: setSpawnCallback_def within_capacity_def)
next
  case (EnqueueAgent ne ns i t)
  assume "within_capacity s"
  with EnqueueAgent show ?thesis
    by (cases "int (Map_size (runningAgents s)) < maxConcurrent s")
       (simp_all add: enqueueAgent_start enqueueAgent_queue startAgent_eq within_capacity_def
          Map_size_fmupd)
next
  case (MarkAgentComplete d w st i)
  assume wc: "within_capacity s"
  show ?thesis
  proof (cases "fmlookup (runningAgents s) i")
    case None
    with wc MarkAgentComplete show ?thesis by (simp add: markAgentComplete_unknown)
  next
    case (Some a)
    from wc have "within_capacity (s\<lparr> runningAgents := fmdrop i (runningAgents s) \<rparr>)"
      by (auto simp: within_capacity_def Map_size_fmdrop)
    then show ?thesis
      using MarkAgentComplete Some
      by (simp add: markAgentComplete_running within_capacity_spawnNextQueued)
  qed
qed

lemma within_capacity_calls: "within_capacity s \<Longrightarrow> within_capacity (snd (calls cs s))"
  by (induction cs arbitrary: s) (simp_all add: split_def Let_def within_capacity_call)

section \<open>Properties\<close>

text \<open>
  C1. On a manager constructed with a positive capacity \<open>M\<close>, after each call of any
  sequence of calls of the public methods (\<open>take n cs\<close> is the sequence up to its
  \<open>n\<close>-th call) the running count is at most \<open>M\<close>.
\<close>

theorem running_count_within_max:
  "0 < M \<Longrightarrow> int (getRunningCount (snd (calls (take n cs) (constructor (Some M))))) \<le> M"
proof -
  assume "0 < M"
  then have "within_capacity (constructor (Some M) :: 'a AgentQueueManager)"
    by (simp add: within_capacity_def constructor_def Map_size_fmempty)
  then have "within_capacity (snd (calls (take n cs) (constructor (Some M) :: 'a AgentQueueManager)))"
    by (rule within_capacity_calls)
  then show ?thesis
    by (simp add: within_capacity_def getRunningCount_def maxConcurrent_calls constructor_def)
qed

theorem running_count_within_max_witness:
  "(0::int) < 2
   \<and> int (getRunningCount (snd (calls (take 3
        [EnqueueAgent 10 11 ''agent-1'' (''researcher'', ''test1''),
         EnqueueAgent 12 13 ''agent-2'' (''coder'', ''test2''),
         EnqueueAgent 14 15 ''agent-3'' (''debugger'', ''test3''),
         MarkAgentComplete 20 21 22 ''agent-1''])
        (constructor (Some 2) :: unit AgentQueueManager)))) \<le> 2"
  using running_count_within_max [of 2 3 "[EnqueueAgent 10 11 ''agent-1'' (''researcher'', ''test1''),
         EnqueueAgent 12 13 ''agent-2'' (''coder'', ''test2''),
         EnqueueAgent 14 15 ''agent-3'' (''debugger'', ''test3''),
         MarkAgentComplete 20 21 22 ''agent-1'']"]
  by simp

text \<open>
  C6. When the id is not in the running map, \<^verbatim>\<open>markAgentComplete\<close> returns the state it
  was given and emits the one warning; the running count and the queued count are as
  before. The method has no \<^verbatim>\<open>throw\<close>, and its one non-null assertion follows the \<^verbatim>\<open>has\<close>
  test, so it has no outcome other than this return.
\<close>

theorem complete_not_running_is_noop:
  "\<not> isAgentRunning ident s \<Longrightarrow>
     markAgentComplete d w st ident s = ([WarnNotRunning ident], s)
     \<and> getRunningCount (snd (markAgentComplete d w st ident s)) = getRunningCount s
     \<and> getQueuedCount (snd (markAgentComplete d w st ident s)) = getQueuedCount s"
  by (simp add: isAgentRunning_def markAgentComplete_unknown)

theorem complete_not_running_is_noop_witness:
  "\<not> isAgentRunning ''agent-9''
       (snd (calls [EnqueueAgent 10 11 ''agent-1'' (''researcher'', ''test1'')]
               (constructor (Some 2) :: unit AgentQueueManager)))
   \<and> markAgentComplete 20 21 22 ''agent-9''
       (snd (calls [EnqueueAgent 10 11 ''agent-1'' (''researcher'', ''test1'')]
               (constructor (Some 2) :: unit AgentQueueManager)))
     = ([WarnNotRunning ''agent-9''],
        snd (calls [EnqueueAgent 10 11 ''agent-1'' (''researcher'', ''test1'')]
               (constructor (Some 2) :: unit AgentQueueManager)))"
proof -
  let ?s = "snd (calls [EnqueueAgent 10 11 ''agent-1'' (''researcher'', ''test1'')]
               (constructor (Some 2) :: unit AgentQueueManager))"
  have h: "\<not> isAgentRunning ''agent-9'' ?s"
    by code_simp
  from complete_not_running_is_noop [OF h, of 20 21 22] h show ?thesis
    by blast
qed


text \<open>
  C9. When the id is not in the running map, \<^verbatim>\<open>markAgentComplete\<close> emits the warning
  only: the callback is not called, and the queue and the running map are as before.
  That holds also when a task is queued and a slot is free, a state in which
  \<^verbatim>\<open>spawnNextQueued\<close>, had it been reached, would have started the head of the queue.
\<close>

theorem complete_not_running_promotes_nothing:
  "\<not> isAgentRunning ident s \<Longrightarrow>
     callback_calls (fst (markAgentComplete d w st ident s)) = []
     \<and> fst (markAgentComplete d w st ident s) = [WarnNotRunning ident]
     \<and> queuedAgents (snd (markAgentComplete d w st ident s)) = queuedAgents s
     \<and> runningAgents (snd (markAgentComplete d w st ident s)) = runningAgents s
     \<and> (queuedAgents s \<noteq> [] \<and> int (getRunningCount s) < maxConcurrent s \<longrightarrow>
          queuedAgents (snd (spawnNextQueued w st s)) = tl (queuedAgents s)
          \<and> isAgentRunning (task_id (hd (queuedAgents s))) (snd (spawnNextQueued w st s)))"
  by (auto simp: isAgentRunning_def markAgentComplete_unknown getRunningCount_def
        spawnNextQueued_promote startAgent_eq neq_Nil_conv)

theorem complete_not_running_promotes_nothing_witness:
  "\<not> isAgentRunning ''agent-9'' slot_free_while_waiting
   \<and> queuedAgents slot_free_while_waiting \<noteq> []
   \<and> int (getRunningCount slot_free_while_waiting) < maxConcurrent slot_free_while_waiting
   \<and> callback_calls (fst (markAgentComplete 30 31 32 ''agent-9'' slot_free_while_waiting)) = []
   \<and> queuedAgents (snd (markAgentComplete 30 31 32 ''agent-9'' slot_free_while_waiting))
       = queuedAgents slot_free_while_waiting
   \<and> queuedAgents (snd (spawnNextQueued 31 32 slot_free_while_waiting))
       = tl (queuedAgents slot_free_while_waiting)"
proof -
  have h: "\<not> isAgentRunning ''agent-9'' slot_free_while_waiting"
    by code_simp
  have q: "queuedAgents slot_free_while_waiting \<noteq> []"
    by code_simp
  have f: "int (getRunningCount slot_free_while_waiting) < maxConcurrent slot_free_while_waiting"
    by code_simp
  from complete_not_running_promotes_nothing [OF h, of 30 31 32] h q f show ?thesis
    by blast
qed

text \<open>
  C10. Without an argument the constructor sets the capacity to 2, and the manager
  works with that capacity: of three tasks enqueued, two run and one is queued. With
  an argument \<open>m\<close>, whatever its sign, construction succeeds and the capacity is
  \<open>m\<close>.
\<close>

theorem constructor_default_and_unvalidated:
  "maxConcurrent (constructor None :: 'cb AgentQueueManager) = 2
   \<and> new_AgentQueueManager None = Inr (constructor None :: 'cb AgentQueueManager)
   \<and> getStatus (constructor None :: 'cb AgentQueueManager) = (0, 0, 2)
   \<and> getStatus (snd (calls [EnqueueAgent 10 11 ''agent-1'' (''researcher'', ''test1''),
                             EnqueueAgent 12 13 ''agent-2'' (''coder'', ''test2''),
                             EnqueueAgent 14 15 ''agent-3'' (''debugger'', ''test3'')]
                        (constructor None :: 'cb AgentQueueManager))) = (2, 1, 2)
   \<and> new_AgentQueueManager (Some m) = Inr (constructor (Some m) :: 'cb AgentQueueManager)
   \<and> maxConcurrent (constructor (Some m) :: 'cb AgentQueueManager) = m
   \<and> getStatus (constructor (Some m) :: 'cb AgentQueueManager) = (0, 0, m)"
proof -
  have cap: "maxConcurrent (constructor None :: 'cb AgentQueueManager) = 2"
    by (simp add: constructor_def)
  have new: "new_AgentQueueManager arg = Inr (constructor arg :: 'cb AgentQueueManager)" for arg
    by (simp add: new_AgentQueueManager_def)
  have st: "getStatus (constructor None :: 'cb AgentQueueManager) = (0, 0, 2)"
    by (simp add: constructor_def getStatus_def Map_size_fmempty)
  have run: "getStatus (snd (calls [EnqueueAgent 10 11 ''agent-1'' (''researcher'', ''test1''),
                             EnqueueAgent 12 13 ''agent-2'' (''coder'', ''test2''),
                             EnqueueAgent 14 15 ''agent-3'' (''debugger'', ''test3'')]
                        (constructor None :: 'cb AgentQueueManager))) = (2, 1, 2)"
    by code_simp
  have capm: "maxConcurrent (constructor (Some m) :: 'cb AgentQueueManager) = m"
    by (simp add: constructor_def)
  have stm: "getStatus (constructor (Some m) :: 'cb AgentQueueManager) = (0, 0, m)"
    by (simp add: constructor_def getStatus_def Map_size_fmempty)
  from cap new st run capm stm show ?thesis
    by blast
qed

text \<open>With a capacity of zero or less nothing is ever started.\<close>

lemma nothing_runs_call:
  "maxConcurrent s \<le> 0 \<Longrightarrow> runningAgents s = fmempty
     \<Longrightarrow> runningAgents (snd (call c s)) = fmempty"
  by (cases c)
     (simp_all add: setSpawnCallback_def enqueueAgent_queue markAgentComplete_unknown
        Map_size_fmempty)

lemma nothing_runs_calls:
  "maxConcurrent s \<le> 0 \<Longrightarrow> runningAgents s = fmempty
     \<Longrightarrow> runningAgents (snd (calls cs s)) = fmempty"
proof (induction cs arbitrary: s)
  case Nil
  then show ?case by simp
next
  case (Cons c cs)
  have "maxConcurrent (snd (call c s)) \<le> 0"
    using Cons.prems(1) by (simp add: maxConcurrent_call)
  moreover have "runningAgents (snd (call c s)) = fmempty"
    using Cons.prems by (rule nothing_runs_call)
  ultimately show ?case
    unfolding snd_calls_Cons by (rule Cons.IH)
qed

text \<open>
  C4, as the claim states it, fails: constructing with capacity 0 or \<open>- 1\<close> yields a
  manager, not an error.
\<close>

theorem constructor_nonpositive_counterexample:
  "\<not> isl (new_AgentQueueManager (Some 0) :: error + unit AgentQueueManager)
   \<and> \<not> isl (new_AgentQueueManager (Some (- 1)) :: error + unit AgentQueueManager)"
  by (simp add: new_AgentQueueManager_def)

text \<open>
  C4, amended. Construction with a capacity \<open>M \<le> 0\<close> succeeds and stores \<open>M\<close>.
  The manager neither takes another capacity nor runs without bound: after any
  sequence of calls the capacity is still \<open>M\<close>, nothing is running, and a further
  \<^verbatim>\<open>enqueueAgent\<close> returns \<^verbatim>\<open>'queued'\<close>.
\<close>

theorem constructor_nonpositive_runs_nothing:
  "M \<le> 0 \<Longrightarrow>
     new_AgentQueueManager (Some M) = Inr (constructor (Some M) :: 'cb AgentQueueManager)
     \<and> maxConcurrent (snd (calls cs (constructor (Some M) :: 'cb AgentQueueManager))) = M
     \<and> getRunningCount (snd (calls cs (constructor (Some M)))) = 0
     \<and> fst (enqueueAgent ne ns ident task (snd (calls cs (constructor (Some M))))) = Queued"
proof -
  assume M: "M \<le> 0"
  let ?init = "constructor (Some M) :: 'cb AgentQueueManager"
  have m0: "maxConcurrent ?init = M" and r0: "runningAgents ?init = fmempty"
    by (simp_all add: constructor_def)
  have m: "maxConcurrent (snd (calls cs ?init)) = M"
    by (simp add: maxConcurrent_calls m0)
  have r: "runningAgents (snd (calls cs ?init)) = fmempty"
    using M by (intro nothing_runs_calls) (simp_all add: m0 r0)
  have "\<not> int (Map_size (runningAgents (snd (calls cs ?init)))) < maxConcurrent (snd (calls cs ?init))"
    using M by (simp add: m r Map_size_fmempty)
  then have "fst (enqueueAgent ne ns ident task (snd (calls cs ?init))) = Queued"
    by (simp add: enqueueAgent_queue)
  then show ?thesis
    using m r by (simp add: new_AgentQueueManager_def getRunningCount_def Map_size_fmempty)
qed

theorem constructor_nonpositive_runs_nothing_witness:
  "(0::int) \<le> 0
   \<and> new_AgentQueueManager (Some 0) = (Inr (constructor (Some 0)) :: error + unit AgentQueueManager)
   \<and> getRunningCount (snd (calls [EnqueueAgent 10 11 ''agent-1'' (''researcher'', ''test1''),
                                   MarkAgentComplete 20 21 22 ''agent-1'']
                              (constructor (Some 0) :: unit AgentQueueManager))) = 0
   \<and> fst (enqueueAgent 30 31 ''agent-2'' (''coder'', ''test2'')
             (snd (calls [EnqueueAgent 10 11 ''agent-1'' (''researcher'', ''test1''),
                          MarkAgentComplete 20 21 22 ''agent-1'']
                     (constructor (Some 0) :: unit AgentQueueManager)))) = Queued"
  using constructor_nonpositive_runs_nothing
          [where ?'cb = unit,
           of 0 "[EnqueueAgent 10 11 ''agent-1'' (''researcher'', ''test1''),
                  MarkAgentComplete 20 21 22 ''agent-1'']" 30 31 "''agent-2''"
              "(''coder'', ''test2'')"]
  by simp

subsection \<open>The queue is the arrivals not yet promoted\<close>

lemma promotions_append: "promotions (evs @ evs') = promotions evs + promotions evs'"
  by (induction evs rule: promotions.induct) simp_all

lemma callback_calls_append: "callback_calls (evs @ evs') = callback_calls evs @ callback_calls evs'"
  by (induction evs rule: callback_calls.induct) simp_all

lemma promotions_startAgent: "promotions (fst (startAgent now t s)) = 0"
  by (simp add: startAgent_eq split: option.splits)

lemma callback_calls_startAgent:
  "callback_calls (fst (startAgent now t s)) =
     (case onSpawnCallback s of None \<Rightarrow> [] | Some cb \<Rightarrow> [(cb, t)])"
  by (simp add: startAgent_eq split: option.splits)

text \<open>One call: the queue afterwards is the queue before, then the arrival, less the promotion.\<close>

lemma queue_after_call:
  "queuedAgents (snd (call c s)) =
     drop (promotions (fst (call c s))) (queuedAgents s @ queued_arrivals [c] s)
   \<and> promotions (fst (call c s)) \<le> length (queuedAgents s)"
proof (cases c)
  case (SetSpawnCallback cb)
  then show ?thesis by (simp add: setSpawnCallback_def)
next
  case (EnqueueAgent ne ns i t)
  then show ?thesis
    by (cases "int (Map_size (runningAgents s)) < maxConcurrent s")
       (simp_all add: enqueueAgent_start enqueueAgent_queue startAgent_eq split: option.splits)
next
  case c: (MarkAgentComplete d w st i)
  show ?thesis
  proof (cases "fmlookup (runningAgents s) i")
    case None
    with c show ?thesis by (simp add: markAgentComplete_unknown)
  next
    case (Some a)
    let ?s1 = "s\<lparr> runningAgents := fmdrop i (runningAgents s) \<rparr>"
    show ?thesis
    proof (cases "queuedAgents ?s1 = [] \<or> maxConcurrent ?s1 \<le> int (Map_size (runningAgents ?s1))")
      case True
      then have "spawnNextQueued w st ?s1 = ([], ?s1)"
        by (rule spawnNextQueued_idle)
      with c Some show ?thesis by (simp add: markAgentComplete_running)
    next
      case False
      then obtain t rest where q: "queuedAgents ?s1 = t # rest"
        and free: "int (Map_size (runningAgents ?s1)) < maxConcurrent ?s1"
        by (auto simp: neq_Nil_conv)
      from q have "queuedAgents s = t # rest" by simp
      with c Some show ?thesis
        by (simp add: markAgentComplete_running spawnNextQueued_promote [OF q free]
              startAgent_eq split: option.splits)
    qed
  qed
qed

lemma queued_arrivals_Cons:
  "queued_arrivals (c # cs) s = queued_arrivals [c] s @ queued_arrivals cs (snd (call c s))"
  by (cases c) simp_all

lemma queue_is_arrivals_less_promotions:
  "queuedAgents (snd (calls cs s)) =
     drop (promotions (fst (calls cs s))) (queuedAgents s @ queued_arrivals cs s)"
proof (induction cs arbitrary: s)
  case Nil
  then show ?case by simp
next
  case (Cons c cs)
  let ?s1 = "snd (call c s)"
  let ?p = "promotions (fst (call c s))"
  let ?k = "promotions (fst (calls cs ?s1))"
  have one: "queuedAgents ?s1 = drop ?p (queuedAgents s @ queued_arrivals [c] s)"
    and le: "?p \<le> length (queuedAgents s)"
    using queue_after_call [of c s] by simp_all
  have "queuedAgents (snd (calls (c # cs) s)) = queuedAgents (snd (calls cs ?s1))"
    by (simp only: snd_calls_Cons)
  also have "\<dots> = drop ?k (queuedAgents ?s1 @ queued_arrivals cs ?s1)"
    by (rule Cons.IH)
  also have "queuedAgents ?s1 @ queued_arrivals cs ?s1 =
      drop ?p (queuedAgents s @ queued_arrivals [c] s @ queued_arrivals cs ?s1)"
    using le by (simp add: one)
  also have "queued_arrivals [c] s @ queued_arrivals cs ?s1 = queued_arrivals (c # cs) s"
    by (rule queued_arrivals_Cons [symmetric])
  also have "drop ?k (drop ?p (queuedAgents s @ queued_arrivals (c # cs) s))
      = drop (?k + ?p) (queuedAgents s @ queued_arrivals (c # cs) s)"
    by (rule drop_drop)
  also have "?k + ?p = promotions (fst (calls (c # cs) s))"
    unfolding fst_calls_Cons promotions_append by (rule add.commute)
  finally show ?case .
qed

text \<open>An arrival carries the arguments of the call that enqueued it.\<close>

lemma queued_arrivals_from_call:
  "t \<in> set (queued_arrivals cs s) \<Longrightarrow>
     \<exists>ns. EnqueueAgent (enqueuedAt t) ns (task_id t) (task_type t, prompt t) \<in> set cs"
proof (induction cs arbitrary: s)
  case Nil
  then show ?case by simp
next
  case (Cons c cs)
  show ?case
  proof (cases "t \<in> set (queued_arrivals cs (snd (call c s)))")
    case True
    then have "\<exists>ns. EnqueueAgent (enqueuedAt t) ns (task_id t) (task_type t, prompt t) \<in> set cs"
      by (rule Cons.IH)
    then show ?thesis by auto
  next
    case False
    with Cons.prems have "t \<in> set (queued_arrivals [c] s)"
      using queued_arrivals_Cons [of c cs s] by simp
    then show ?thesis
      by (cases c) (auto split: if_splits)
  qed
qed

text \<open>From construction, an agent can only be running within the capacity.\<close>

lemma running_implies_within_capacity:
  assumes "isAgentRunning i (snd (calls cs (constructor arg)))"
  shows "within_capacity (snd (calls cs (constructor arg)))"
proof (cases "maxConcurrent (constructor arg :: 'a AgentQueueManager) \<le> 0")
  case True
  then have "runningAgents (snd (calls cs (constructor arg :: 'a AgentQueueManager))) = fmempty"
    by (rule nothing_runs_calls) (simp add: constructor_def)
  with assms show ?thesis by (simp add: isAgentRunning_def)
next
  case False
  then have "within_capacity (constructor arg :: 'a AgentQueueManager)"
    by (simp add: within_capacity_def constructor_def Map_size_fmempty)
  then show ?thesis by (rule within_capacity_calls)
qed

text \<open>Completion of a running agent within capacity, with a task waiting.\<close>

lemma markAgentComplete_promote:
  assumes run: "fmlookup (runningAgents s) i = Some a"
      and q: "queuedAgents s = t # rest"
      and cap: "within_capacity s"
  shows "markAgentComplete d w st i s =
           (LogCompleted i (agent_type a) (d - startedAt a)
              # LogSpawning (task_id t) (w - enqueuedAt t)
              # fst (startAgent st t (s\<lparr> runningAgents := fmdrop i (runningAgents s), queuedAgents := rest \<rparr>)),
            snd (startAgent st t (s\<lparr> runningAgents := fmdrop i (runningAgents s), queuedAgents := rest \<rparr>)))"
proof -
  let ?s1 = "s\<lparr> runningAgents := fmdrop i (runningAgents s) \<rparr>"
  from run have "i |\<in>| fmdom (runningAgents s)"
    by (simp add: fmlookup_dom_iff)
  then have "Map_size (runningAgents ?s1) < Map_size (runningAgents s)"
    using Map_size_pos [of i "runningAgents s"] by (simp add: Map_size_fmdrop)
  with cap have free: "int (Map_size (runningAgents ?s1)) < maxConcurrent ?s1"
    by (simp add: within_capacity_def)
  from q have q1: "queuedAgents ?s1 = t # rest" by simp
  show ?thesis
    by (simp add: markAgentComplete_running [OF run] spawnNextQueued_promote [OF q1 free])
qed

text \<open>
  C2. Let \<open>s\<close> be a state reached from construction by any calls, with a task waiting
  and \<open>ident\<close> running. The queue of \<open>s\<close> is the list of the tasks pushed on it, in the
  order of their \<^verbatim>\<open>enqueueAgent\<close> calls, without those promoted so far; so its head is
  the task enqueued earliest among those still waiting, and it carries the id, type
  and prompt of its \<^verbatim>\<open>enqueueAgent\<close> call. \<^verbatim>\<open>markAgentComplete\<close> of \<open>ident\<close> promotes
  exactly that task: it makes one promotion, the queue loses its head and nothing
  else, the running map loses \<open>ident\<close> and gains an entry for the head, and the
  callback, when one is set, is called once, with the head as it was enqueued (when
  none is set, none is called).
\<close>

theorem complete_promotes_earliest_waiting:
  fixes s :: "'cb AgentQueueManager"
  assumes "s = snd (calls cs (constructor arg))"
      and "queuedAgents s \<noteq> []"
      and "isAgentRunning ident s"
  shows "queuedAgents s =
           drop (promotions (fst (calls cs (constructor arg :: 'cb AgentQueueManager))))
             (queued_arrivals cs (constructor arg))
       \<and> (\<exists>ns. EnqueueAgent (enqueuedAt (hd (queuedAgents s))) ns (task_id (hd (queuedAgents s)))
                  (task_type (hd (queuedAgents s)), prompt (hd (queuedAgents s))) \<in> set cs)
       \<and> promotions (fst (markAgentComplete d w st ident s)) = 1
       \<and> queuedAgents (snd (markAgentComplete d w st ident s)) = tl (queuedAgents s)
       \<and> runningAgents (snd (markAgentComplete d w st ident s)) =
           fmupd (task_id (hd (queuedAgents s)))
             \<lparr> agent_id = task_id (hd (queuedAgents s)),
               agent_type = task_type (hd (queuedAgents s)), startedAt = st \<rparr>
             (fmdrop ident (runningAgents s))
       \<and> callback_calls (fst (markAgentComplete d w st ident s)) =
           (case onSpawnCallback s of None \<Rightarrow> [] | Some cb \<Rightarrow> [(cb, hd (queuedAgents s))])"
proof -
  let ?init = "constructor arg :: 'cb AgentQueueManager"
  from assms(2) obtain t rest where q: "queuedAgents s = t # rest"
    by (auto simp: neq_Nil_conv)
  from assms(3) obtain a where run: "fmlookup (runningAgents s) ident = Some a"
    by (auto simp: isAgentRunning_def)
  from assms(1,3) have cap: "within_capacity s"
    by (simp add: running_implies_within_capacity)
  have fifo: "queuedAgents s = drop (promotions (fst (calls cs ?init))) (queued_arrivals cs ?init)"
    using queue_is_arrivals_less_promotions [of cs ?init] assms(1)
    by (simp add: constructor_def)
  have "t \<in> set (queued_arrivals cs ?init)"
    using fifo q by (metis in_set_dropD list.set_intros(1))
  then have orig: "\<exists>ns. EnqueueAgent (enqueuedAt t) ns (task_id t) (task_type t, prompt t) \<in> set cs"
    by (rule queued_arrivals_from_call)
  note step = markAgentComplete_promote [OF run q cap, of d w st]
  have p: "promotions (fst (markAgentComplete d w st ident s)) = 1"
    by (simp add: step promotions_startAgent)
  have qa: "queuedAgents (snd (markAgentComplete d w st ident s)) = rest"
    by (simp add: step startAgent_eq)
  have ra: "runningAgents (snd (markAgentComplete d w st ident s)) =
      fmupd (task_id t) \<lparr> agent_id = task_id t, agent_type = task_type t, startedAt = st \<rparr>
        (fmdrop ident (runningAgents s))"
    by (simp add: step startAgent_eq)
  have cb: "callback_calls (fst (markAgentComplete d w st ident s)) =
      (case onSpawnCallback s of None \<Rightarrow> [] | Some cb \<Rightarrow> [(cb, t)])"
    by (simp add: step callback_calls_startAgent)
  have h: "hd (queuedAgents s) = t" and tl: "tl (queuedAgents s) = rest"
    by (simp_all add: q)
  from fifo orig p qa ra cb show ?thesis
    unfolding h tl by (intro conjI)
qed

theorem complete_promotes_earliest_waiting_witness:
  "queuedAgents (snd (calls one_slot_calls (constructor (Some 1)))) \<noteq> []
   \<and> isAgentRunning ''A'' (snd (calls one_slot_calls (constructor (Some 1))))
   \<and> queuedAgents (snd (markAgentComplete 20 21 22 ''A''
         (snd (calls one_slot_calls (constructor (Some 1))))))
       = tl (queuedAgents (snd (calls one_slot_calls (constructor (Some 1)))))
   \<and> callback_calls (fst (markAgentComplete 20 21 22 ''A''
         (snd (calls one_slot_calls (constructor (Some 1))))))
       = [(7, \<lparr> task_id = ''B'', task_type = ''coder'', prompt = ''second'', enqueuedAt = 12 \<rparr>)]"
proof -
  let ?s = "snd (calls one_slot_calls (constructor (Some 1)))"
  have q: "queuedAgents ?s \<noteq> []"
    by code_simp
  have r: "isAgentRunning ''A'' ?s"
    by code_simp
  have v: "(case onSpawnCallback ?s of None \<Rightarrow> [] | Some cb \<Rightarrow> [(cb, hd (queuedAgents ?s))])
      = [(7, \<lparr> task_id = ''B'', task_type = ''coder'', prompt = ''second'', enqueuedAt = 12 \<rparr>)]"
    by code_simp
  from complete_promotes_earliest_waiting [OF refl q r, of 20 21 22] q r v show ?thesis
    by metis
qed

subsection \<open>Completion promotes at most once\<close>

lemma promotions_spawnNextQueued:
  "promotions (fst (spawnNextQueued w st s)) =
     (if queuedAgents s = [] \<or> maxConcurrent s \<le> int (Map_size (runningAgents s)) then 0 else 1)
   \<and> length (callback_calls (fst (spawnNextQueued w st s))) \<le> promotions (fst (spawnNextQueued w st s))
   \<and> queuedAgents (snd (spawnNextQueued w st s)) =
       drop (promotions (fst (spawnNextQueued w st s))) (queuedAgents s)"
proof (cases "queuedAgents s = [] \<or> maxConcurrent s \<le> int (Map_size (runningAgents s))")
  case True
  then have "spawnNextQueued w st s = ([], s)"
    by (rule spawnNextQueued_idle)
  with True show ?thesis by simp
next
  case False
  then obtain t rest where q: "queuedAgents s = t # rest"
    and free: "int (Map_size (runningAgents s)) < maxConcurrent s"
    by (auto simp: neq_Nil_conv)
  show ?thesis
    using False
    by (simp add: spawnNextQueued_promote [OF q free] q startAgent_eq split: option.splits)
qed

lemma promotions_markAgentComplete:
  "promotions (fst (markAgentComplete d w st i s)) \<le> 1
   \<and> length (callback_calls (fst (markAgentComplete d w st i s)))
       \<le> promotions (fst (markAgentComplete d w st i s))
   \<and> queuedAgents (snd (markAgentComplete d w st i s)) =
       drop (promotions (fst (markAgentComplete d w st i s))) (queuedAgents s)"
proof (cases "fmlookup (runningAgents s) i")
  case None
  then show ?thesis by (simp add: markAgentComplete_unknown)
next
  case (Some a)
  let ?s1 = "s\<lparr> runningAgents := fmdrop i (runningAgents s) \<rparr>"
  show ?thesis
    using promotions_spawnNextQueued [of w st ?s1]
    by (simp add: markAgentComplete_running [OF Some] del: One_nat_def)
qed

text \<open>With nothing waiting, completion only deletes from the running map.\<close>

lemma markAgentComplete_nothing_waiting:
  assumes "queuedAgents s = []"
  shows "queuedAgents (snd (markAgentComplete d w st i s)) = []
       \<and> fmdom' (runningAgents (snd (markAgentComplete d w st i s))) = fmdom' (runningAgents s) - {i}
       \<and> promotions (fst (markAgentComplete d w st i s)) = 0
       \<and> callback_calls (fst (markAgentComplete d w st i s)) = []"
proof (cases "fmlookup (runningAgents s) i")
  case None
  then have "i \<notin> fmdom' (runningAgents s)"
    by (simp add: fmdom'_notI)
  with None assms show ?thesis by (simp add: markAgentComplete_unknown)
next
  case (Some a)
  let ?s1 = "s\<lparr> runningAgents := fmdrop i (runningAgents s) \<rparr>"
  from assms have "spawnNextQueued w st ?s1 = ([], ?s1)"
    by (intro spawnNextQueued_idle) simp
  with assms show ?thesis by (simp add: markAgentComplete_running [OF Some])
qed

lemma complete_all_nothing_waiting:
  assumes "queuedAgents s = []"
  shows "queuedAgents (snd (calls (map (\<lambda>(d, w, st, i). MarkAgentComplete d w st i) xs) s)) = []
       \<and> fmdom' (runningAgents (snd (calls (map (\<lambda>(d, w, st, i). MarkAgentComplete d w st i) xs) s)))
           = fmdom' (runningAgents s) - (\<lambda>(d, w, st, i). i) ` set xs
       \<and> promotions (fst (calls (map (\<lambda>(d, w, st, i). MarkAgentComplete d w st i) xs) s)) = 0
       \<and> callback_calls (fst (calls (map (\<lambda>(d, w, st, i). MarkAgentComplete d w st i) xs) s)) = []"
  using assms
proof (induction xs arbitrary: s)
  case Nil
  then show ?case by simp
next
  case (Cons x xs)
  let ?f = "\<lambda>(d, w, st, i). MarkAgentComplete d w st i :: 'a method_call"
  obtain d w st i where x: "x = (d, w, st, i)"
    by (cases x) auto
  let ?s1 = "snd (markAgentComplete d w st i s)"
  have unfold_snd: "snd (calls (map ?f (x # xs)) s) = snd (calls (map ?f xs) ?s1)"
    by (simp add: x split_def Let_def)
  have unfold_fst: "fst (calls (map ?f (x # xs)) s) =
      fst (markAgentComplete d w st i s) @ fst (calls (map ?f xs) ?s1)"
    by (simp add: x split_def Let_def)
  have ids: "(\<lambda>(d, w, st, i). i) ` set (x # xs) = insert i ((\<lambda>(d, w, st, i). i) ` set xs)"
    by (simp add: x)
  note one = markAgentComplete_nothing_waiting [OF Cons.prems, of d w st i]
  from one have q1: "queuedAgents ?s1 = []"
    by (rule conjunct1)
  note rest = Cons.IH [OF q1]
  have a: "queuedAgents (snd (calls (map ?f (x # xs)) s)) = []"
    unfolding unfold_snd using rest by (rule conjunct1)
  have "fmdom' (runningAgents (snd (calls (map ?f xs) ?s1)))
      = fmdom' (runningAgents s) - {i} - (\<lambda>(d, w, st, i). i) ` set xs"
    using rest one by simp
  then have b: "fmdom' (runningAgents (snd (calls (map ?f (x # xs)) s)))
      = fmdom' (runningAgents s) - (\<lambda>(d, w, st, i). i) ` set (x # xs)"
    unfolding unfold_snd ids by blast
  have c: "promotions (fst (calls (map ?f (x # xs)) s)) = 0"
    unfolding unfold_fst promotions_append using rest one by simp
  have d: "callback_calls (fst (calls (map ?f (x # xs)) s)) = []"
    unfolding unfold_fst callback_calls_append using rest one by simp
  from a b c d show ?case
    by (intro conjI)
qed

lemma Map_size_0_dom: "fmdom' m = {} \<Longrightarrow> Map_size m = 0"
  by (metis Map_size_def fcard_fempty fmdom'_alt_def bot_fset.rep_eq fset_inject)

text \<open>
  What completion does to the running map and which callback calls it makes, by the
  number of promotions it made.
\<close>

lemma markAgentComplete_effect:
  "runningAgents (snd (markAgentComplete d w st i s)) =
     (if promotions (fst (markAgentComplete d w st i s)) = 0
      then fmdrop i (runningAgents s)
      else fmupd (task_id (hd (queuedAgents s)))
             \<lparr> agent_id = task_id (hd (queuedAgents s)),
               agent_type = task_type (hd (queuedAgents s)), startedAt = st \<rparr>
             (fmdrop i (runningAgents s)))
   \<and> callback_calls (fst (markAgentComplete d w st i s)) =
     (if promotions (fst (markAgentComplete d w st i s)) = 0 then []
      else (case onSpawnCallback s of None \<Rightarrow> [] | Some cb \<Rightarrow> [(cb, hd (queuedAgents s))]))"
proof (cases "fmlookup (runningAgents s) i")
  case None
  then have "i |\<notin>| fmdom (runningAgents s)"
    by (simp add: fmdom_notI)
  then have "fmdrop i (runningAgents s) = runningAgents s"
    by (rule fmdrop_idle)
  with None show ?thesis
    by (simp add: markAgentComplete_unknown)
next
  case (Some a)
  let ?s1 = "s\<lparr> runningAgents := fmdrop i (runningAgents s) \<rparr>"
  show ?thesis
  proof (cases "queuedAgents ?s1 = [] \<or> maxConcurrent ?s1 \<le> int (Map_size (runningAgents ?s1))")
    case True
    then have "spawnNextQueued w st ?s1 = ([], ?s1)"
      by (rule spawnNextQueued_idle)
    then show ?thesis
      by (simp add: markAgentComplete_running [OF Some])
  next
    case False
    then obtain t rest where q: "queuedAgents ?s1 = t # rest"
      and free: "int (Map_size (runningAgents ?s1)) < maxConcurrent ?s1"
      by (auto simp: neq_Nil_conv)
    from q have qs: "queuedAgents s = t # rest"
      by simp
    show ?thesis
      by (simp add: markAgentComplete_running [OF Some] spawnNextQueued_promote [OF q free]
            startAgent_eq qs split: option.splits)
  qed
qed

text \<open>
  C7. \<^verbatim>\<open>markAgentComplete\<close> makes at most one promotion, whatever the state, and a
  promotion is the whole move of one task: the queue it leaves is the queue before
  without as many heads as it made promotions; when it made one, the running map is
  the map before without the completed id and with the running entry of the former
  head of the queue, and the callback, when one is set, was called once, with that
  head; when it made none, the running map only lost the completed id and no callback
  was called. In a state reached from construction in which the id is running, so that
  the call frees a slot, it makes exactly one promotion when a task is waiting, after
  which the former head of the queue is running and the running count is within the
  capacity, and none when the queue is empty. When the queue is empty and every
  running id is completed, the running count is 0 afterwards, no promotion was made
  and the callback was not called.
\<close>

theorem complete_promotes_at_most_one:
  fixes s s2 :: "'cb AgentQueueManager"
  shows "promotions (fst (markAgentComplete d w st ident s)) \<le> 1
       \<and> length (callback_calls (fst (markAgentComplete d w st ident s)))
           \<le> promotions (fst (markAgentComplete d w st ident s))
       \<and> queuedAgents (snd (markAgentComplete d w st ident s)) =
           drop (promotions (fst (markAgentComplete d w st ident s))) (queuedAgents s)
       \<and> runningAgents (snd (markAgentComplete d w st ident s)) =
           (if promotions (fst (markAgentComplete d w st ident s)) = 0
            then fmdrop ident (runningAgents s)
            else fmupd (task_id (hd (queuedAgents s)))
                   \<lparr> agent_id = task_id (hd (queuedAgents s)),
                     agent_type = task_type (hd (queuedAgents s)), startedAt = st \<rparr>
                   (fmdrop ident (runningAgents s)))
       \<and> callback_calls (fst (markAgentComplete d w st ident s)) =
           (if promotions (fst (markAgentComplete d w st ident s)) = 0 then []
            else (case onSpawnCallback s of
                    None \<Rightarrow> []
                  | Some cb \<Rightarrow> [(cb, hd (queuedAgents s))]))
       \<and> (isAgentRunning ident (snd (calls cs (constructor arg :: 'cb AgentQueueManager))) \<longrightarrow>
            promotions (fst (markAgentComplete d w st ident (snd (calls cs (constructor arg :: 'cb AgentQueueManager)))))
              = (if queuedAgents (snd (calls cs (constructor arg :: 'cb AgentQueueManager))) = [] then 0 else 1)
            \<and> (queuedAgents (snd (calls cs (constructor arg :: 'cb AgentQueueManager))) \<noteq> [] \<longrightarrow>
                 isAgentRunning
                   (task_id (hd (queuedAgents (snd (calls cs (constructor arg :: 'cb AgentQueueManager))))))
                   (snd (markAgentComplete d w st ident (snd (calls cs (constructor arg :: 'cb AgentQueueManager))))))
            \<and> int (getRunningCount
                 (snd (markAgentComplete d w st ident (snd (calls cs (constructor arg :: 'cb AgentQueueManager))))))
                \<le> maxConcurrent (snd (calls cs (constructor arg :: 'cb AgentQueueManager))))
       \<and> (queuedAgents s2 = [] \<and> fmdom' (runningAgents s2) \<subseteq> (\<lambda>(d, w, st, i). i) ` set xs \<longrightarrow>
            getRunningCount (snd (calls (map (\<lambda>(d, w, st, i). MarkAgentComplete d w st i) xs) s2)) = 0
            \<and> promotions (fst (calls (map (\<lambda>(d, w, st, i). MarkAgentComplete d w st i) xs) s2)) = 0
            \<and> callback_calls (fst (calls (map (\<lambda>(d, w, st, i). MarkAgentComplete d w st i) xs) s2)) = [])"
proof -
  note any = promotions_markAgentComplete [of d w st ident s]
  note eff = markAgentComplete_effect [of d w st ident s]
  let ?r = "snd (calls cs (constructor arg :: 'cb AgentQueueManager))"
  let ?r' = "snd (markAgentComplete d w st ident ?r)"
  have reach: "promotions (fst (markAgentComplete d w st ident ?r))
        = (if queuedAgents ?r = [] then 0 else 1)
      \<and> (queuedAgents ?r \<noteq> [] \<longrightarrow> isAgentRunning (task_id (hd (queuedAgents ?r))) ?r')
      \<and> int (getRunningCount ?r') \<le> maxConcurrent ?r"
    if run: "isAgentRunning ident ?r"
  proof -
    from run have cap: "within_capacity ?r"
      by (rule running_implies_within_capacity)
    then have "within_capacity (snd (call (MarkAgentComplete d w st ident) ?r))"
      by (rule within_capacity_call)
    then have bound: "int (getRunningCount ?r') \<le> maxConcurrent ?r"
      using maxConcurrent_call [of "MarkAgentComplete d w st ident" ?r]
      by (simp add: within_capacity_def getRunningCount_def)
    show ?thesis
    proof (cases "queuedAgents ?r")
      case Nil
      then show ?thesis
        using markAgentComplete_nothing_waiting [of ?r d w st ident] bound by simp
    next
      case (Cons t rest)
      from run obtain a where a: "fmlookup (runningAgents ?r) ident = Some a"
        by (auto simp: isAgentRunning_def)
      note step = markAgentComplete_promote [OF a Cons cap, of d w st]
      have "promotions (fst (markAgentComplete d w st ident ?r)) = 1"
        by (simp add: step promotions_startAgent)
      moreover have "isAgentRunning (task_id t) ?r'"
        by (simp add: step startAgent_eq isAgentRunning_def)
      ultimately show ?thesis
        using bound by (simp add: Cons)
    qed
  qed
  let ?cs = "map (\<lambda>(d, w, st, i). MarkAgentComplete d w st i :: 'cb method_call) xs"
  have all: "getRunningCount (snd (calls ?cs s2)) = 0
      \<and> promotions (fst (calls ?cs s2)) = 0
      \<and> callback_calls (fst (calls ?cs s2)) = []"
    if q: "queuedAgents s2 = []" and cover: "fmdom' (runningAgents s2) \<subseteq> (\<lambda>(d, w, st, i). i) ` set xs"
  proof -
    note r = complete_all_nothing_waiting [OF q, of xs]
    from r cover have "fmdom' (runningAgents (snd (calls ?cs s2))) = {}"
      by blast
    then have "getRunningCount (snd (calls ?cs s2)) = 0"
      unfolding getRunningCount_def by (rule Map_size_0_dom)
    with r show ?thesis by blast
  qed
  from any eff reach all show ?thesis
    by blast
qed

theorem complete_promotes_at_most_one_witness:
  "isAgentRunning ''A'' (snd (calls one_slot_calls (constructor (Some 1))))
   \<and> queuedAgents (snd (calls one_slot_calls (constructor (Some 1)))) \<noteq> []
   \<and> promotions (fst (markAgentComplete 20 21 22 ''A''
        (snd (calls one_slot_calls (constructor (Some 1)))))) = 1
   \<and> isAgentRunning ''B'' (snd (markAgentComplete 20 21 22 ''A''
        (snd (calls one_slot_calls (constructor (Some 1))))))
   \<and> callback_calls (fst (markAgentComplete 20 21 22 ''A''
        (snd (calls one_slot_calls (constructor (Some 1))))))
       = [(7, \<lparr> task_id = ''B'', task_type = ''coder'', prompt = ''second'', enqueuedAt = 12 \<rparr>)]
   \<and> queuedAgents two_running = []
   \<and> fmdom' (runningAgents two_running)
        \<subseteq> (\<lambda>(d, w, st, i). i) ` set [(20 :: int, 21 :: int, 22 :: int, ''agent-2''), (30, 31, 32, ''agent-1'')]
   \<and> getRunningCount (snd (calls
        (map (\<lambda>(d, w, st, i). MarkAgentComplete d w st i)
           [(20, 21, 22, ''agent-2''), (30, 31, 32, ''agent-1'')]) two_running)) = 0
   \<and> callback_calls (fst (calls
        (map (\<lambda>(d, w, st, i). MarkAgentComplete d w st i)
           [(20, 21, 22, ''agent-2''), (30, 31, 32, ''agent-1'')]) two_running)) = []"
proof -
  let ?r = "snd (calls one_slot_calls (constructor (Some 1)))"
  have r: "isAgentRunning ''A'' ?r"
    by code_simp
  have q: "queuedAgents ?r \<noteq> []"
    by code_simp
  have h: "task_id (hd (queuedAgents ?r)) = ''B''"
    by code_simp
  have v: "(case onSpawnCallback ?r of None \<Rightarrow> [] | Some cb \<Rightarrow> [(cb, hd (queuedAgents ?r))])
      = [(7, \<lparr> task_id = ''B'', task_type = ''coder'', prompt = ''second'', enqueuedAt = 12 \<rparr>)]"
    by code_simp
  have e: "queuedAgents two_running = []"
    by code_simp
  have "fmdom (runningAgents two_running) = {|''agent-1'', ''agent-2''|}"
    by code_simp
  then have c: "fmdom' (runningAgents two_running)
      \<subseteq> (\<lambda>(d, w, st, i). i) ` set [(20 :: int, 21 :: int, 22 :: int, ''agent-2''), (30, 31, 32, ''agent-1'')]"
    by (simp add: fmdom'_alt_def)
  note T = complete_promotes_at_most_one
         [where ?'cb = nat,
          of 20 21 22 "''A''" ?r one_slot_calls "Some 1" two_running
             "[(20, 21, 22, ''agent-2''), (30, 31, 32, ''agent-1'')]"]
  note T5 = T [THEN conjunct2, THEN conjunct2, THEN conjunct2, THEN conjunct2]
  note R = mp [OF T5 [THEN conjunct2, THEN conjunct1] r]
  from R [THEN conjunct1] q
  have one: "promotions (fst (markAgentComplete 20 21 22 ''A'' ?r)) = 1"
    by (simp only: if_False)
  from mp [OF R [THEN conjunct2, THEN conjunct1] q] h
  have b: "isAgentRunning ''B'' (snd (markAgentComplete 20 21 22 ''A'' ?r))"
    by (simp only:)
  from T5 [THEN conjunct1] one v
  have cb: "callback_calls (fst (markAgentComplete 20 21 22 ''A'' ?r))
      = [(7, \<lparr> task_id = ''B'', task_type = ''coder'', prompt = ''second'', enqueuedAt = 12 \<rparr>)]"
    by (simp only: One_nat_def nat.simps if_False)
  note all = mp [OF T5 [THEN conjunct2, THEN conjunct2] conjI [OF e c]]
  from r q one b cb e c all show ?thesis
    by blast
qed

subsection \<open>Enqueuing distinct tasks\<close>

lemma enqueue_many:
  fixes s :: "'cb AgentQueueManager"
  assumes "distinct (map enqueue_id xs)"
      and "set (map enqueue_id xs) \<inter> fmdom' (runningAgents s) = {}"
      and "int (Map_size (runningAgents s)) + int f = maxConcurrent s"
  shows "fmdom' (runningAgents (snd (calls (map enqueue_call xs) s)))
           = fmdom' (runningAgents s) \<union> set (take f (map enqueue_id xs))
       \<and> queuedAgents (snd (calls (map enqueue_call xs) s))
           = queuedAgents s @ map enqueued_task (drop f xs)
       \<and> Map_size (runningAgents (snd (calls (map enqueue_call xs) s)))
           = Map_size (runningAgents s) + min f (length xs)"
  using assms
proof (induction xs arbitrary: s f)
  case Nil
  then show ?case by simp
next
  case (Cons x xs)
  obtain ne ns i t where x: "x = (ne, ns, i, t)"
    by (cases x) auto
  let ?s1 = "snd (snd (enqueueAgent ne ns i t s))"
  have unfold: "snd (calls (map enqueue_call (x # xs)) s) = snd (calls (map enqueue_call xs) ?s1)"
    by (simp add: x split_def Let_def)
  from Cons.prems(1) have dist: "distinct (map enqueue_id xs)" and fresh: "i \<notin> set (map enqueue_id xs)"
    by (simp_all add: x)
  from Cons.prems(2) have new: "i \<notin> fmdom' (runningAgents s)"
    and disj: "set (map enqueue_id xs) \<inter> fmdom' (runningAgents s) = {}"
    by (auto simp: x)
  show ?case
  proof (cases f)
    case 0
    with Cons.prems(3) have full: "\<not> int (Map_size (runningAgents s)) < maxConcurrent s"
      by simp
    have r1: "runningAgents ?s1 = runningAgents s"
      and q1: "queuedAgents ?s1 = queuedAgents s @ [enqueued_task x]"
      and m1: "maxConcurrent ?s1 = maxConcurrent s"
      by (simp_all add: enqueueAgent_queue [OF full] x)
    have "int (Map_size (runningAgents ?s1)) + int 0 = maxConcurrent ?s1"
      using Cons.prems(3) 0 by (simp add: r1 m1)
    from Cons.IH [OF dist _ this] disj
    have "fmdom' (runningAgents (snd (calls (map enqueue_call xs) ?s1)))
           = fmdom' (runningAgents ?s1) \<union> set (take 0 (map enqueue_id xs))
       \<and> queuedAgents (snd (calls (map enqueue_call xs) ?s1))
           = queuedAgents ?s1 @ map enqueued_task (drop 0 xs)
       \<and> Map_size (runningAgents (snd (calls (map enqueue_call xs) ?s1)))
           = Map_size (runningAgents ?s1) + min 0 (length xs)"
      by (simp only: r1)
    then show ?thesis
      unfolding unfold by (simp add: r1 q1 0)
  next
    case (Suc f')
    with Cons.prems(3) have free: "int (Map_size (runningAgents s)) < maxConcurrent s"
      by simp
    have r1: "runningAgents ?s1 =
        fmupd i \<lparr> agent_id = i, agent_type = fst t, startedAt = ns \<rparr> (runningAgents s)"
      and q1: "queuedAgents ?s1 = queuedAgents s"
      and m1: "maxConcurrent ?s1 = maxConcurrent s"
      by (simp_all add: enqueueAgent_start [OF free] startAgent_eq)
    from new have "i |\<notin>| fmdom (runningAgents s)"
      by (simp add: fmdom'_alt_def)
    then have size1: "Map_size (runningAgents ?s1) = Suc (Map_size (runningAgents s))"
      by (simp add: r1 Map_size_fmupd)
    have d1: "fmdom' (runningAgents ?s1) = insert i (fmdom' (runningAgents s))"
      by (simp add: r1)
    have disj1: "set (map enqueue_id xs) \<inter> fmdom' (runningAgents ?s1) = {}"
      using disj fresh unfolding d1 by blast
    have "int (Map_size (runningAgents ?s1)) + int f' = maxConcurrent ?s1"
      using Cons.prems(3) Suc by (simp add: size1 m1)
    from Cons.IH [OF dist disj1 this]
    show ?thesis
      unfolding unfold by (simp add: d1 q1 size1 Suc x)
  qed
qed

text \<open>
  C3. When the running count is below the capacity, \<^verbatim>\<open>enqueueAgent\<close> returns \<^verbatim>\<open>'running'\<close>,
  stores the running entry of the task under its id, leaves the queue as it was and,
  within the call, calls the callback with the task when one is set. Otherwise it returns
  \<^verbatim>\<open>'queued'\<close>, appends the task at the end of the queue, leaves the running map as it
  was and calls no callback. Consequently, after \<open>M + k\<close> tasks with distinct ids
  (\<open>k \<ge> 1\<close>) are enqueued on a new manager of capacity \<open>M\<close>, \<open>M\<close> run and \<open>k\<close> are
  queued; the first \<open>M\<close> ids are the running ones and the tasks of the other \<open>k\<close> are
  the queue, in order, so none is lost.
\<close>

theorem enqueue_runs_or_queues:
  fixes s s' :: "'cb AgentQueueManager"
  shows "(int (getRunningCount s) < maxConcurrent s \<longrightarrow>
            fst (enqueueAgent ne ns ident task s) = Running
            \<and> runningAgents (snd (snd (enqueueAgent ne ns ident task s))) =
                fmupd ident \<lparr> agent_id = ident, agent_type = fst task, startedAt = ns \<rparr>
                  (runningAgents s)
            \<and> isAgentRunning ident (snd (snd (enqueueAgent ne ns ident task s)))
            \<and> queuedAgents (snd (snd (enqueueAgent ne ns ident task s))) = queuedAgents s
            \<and> callback_calls (fst (snd (enqueueAgent ne ns ident task s))) =
                (case onSpawnCallback s of
                   None \<Rightarrow> []
                 | Some cb \<Rightarrow> [(cb, enqueued_task (ne, ns, ident, task))]))
       \<and> (\<not> int (getRunningCount s') < maxConcurrent s' \<longrightarrow>
            fst (enqueueAgent ne ns ident task s') = Queued
            \<and> queuedAgents (snd (snd (enqueueAgent ne ns ident task s'))) =
                queuedAgents s' @ [enqueued_task (ne, ns, ident, task)]
            \<and> runningAgents (snd (snd (enqueueAgent ne ns ident task s'))) = runningAgents s'
            \<and> callback_calls (fst (snd (enqueueAgent ne ns ident task s'))) = [])
       \<and> (distinct (map enqueue_id xs) \<and> length xs = M + k \<and> 1 \<le> k \<longrightarrow>
            getRunningCount (snd (calls (map enqueue_call xs)
               (constructor (Some (int M)) :: 'cb AgentQueueManager))) = M
            \<and> getQueuedCount (snd (calls (map enqueue_call xs)
               (constructor (Some (int M)) :: 'cb AgentQueueManager))) = k
            \<and> fmdom' (runningAgents (snd (calls (map enqueue_call xs)
               (constructor (Some (int M)) :: 'cb AgentQueueManager)))) = set (take M (map enqueue_id xs))
            \<and> queuedAgents (snd (calls (map enqueue_call xs)
               (constructor (Some (int M)) :: 'cb AgentQueueManager))) = map enqueued_task (drop M xs))"
proof (intro conjI impI)
  assume free: "int (getRunningCount s) < maxConcurrent s"
  then have e: "enqueueAgent ne ns ident task s =
      (Running, startAgent ns (enqueued_task (ne, ns, ident, task)) s)"
    by (simp add: getRunningCount_def enqueueAgent_start)
  show "fst (enqueueAgent ne ns ident task s) = Running"
    by (simp add: e)
  show "runningAgents (snd (snd (enqueueAgent ne ns ident task s))) =
      fmupd ident \<lparr> agent_id = ident, agent_type = fst task, startedAt = ns \<rparr> (runningAgents s)"
    by (simp add: e startAgent_eq)
  show "isAgentRunning ident (snd (snd (enqueueAgent ne ns ident task s)))"
    by (simp add: e startAgent_eq isAgentRunning_def)
  show "queuedAgents (snd (snd (enqueueAgent ne ns ident task s))) = queuedAgents s"
    by (simp add: e startAgent_eq)
  show "callback_calls (fst (snd (enqueueAgent ne ns ident task s))) =
      (case onSpawnCallback s of None \<Rightarrow> [] | Some cb \<Rightarrow> [(cb, enqueued_task (ne, ns, ident, task))])"
    by (simp add: e callback_calls_startAgent split: option.splits)
next
  assume "\<not> int (getRunningCount s') < maxConcurrent s'"
  then have full: "\<not> int (Map_size (runningAgents s')) < maxConcurrent s'"
    by (simp add: getRunningCount_def)
  note e = enqueueAgent_queue [OF full, of ne ns ident task]
  show "fst (enqueueAgent ne ns ident task s') = Queued"
    by (simp add: e)
  show "queuedAgents (snd (snd (enqueueAgent ne ns ident task s'))) =
      queuedAgents s' @ [enqueued_task (ne, ns, ident, task)]"
    by (simp add: e)
  show "runningAgents (snd (snd (enqueueAgent ne ns ident task s'))) = runningAgents s'"
    by (simp add: e)
  show "callback_calls (fst (snd (enqueueAgent ne ns ident task s'))) = []"
    by (simp add: e)
next
  let ?init = "constructor (Some (int M)) :: 'cb AgentQueueManager"
  let ?s = "snd (calls (map enqueue_call xs) ?init)"
  assume a: "distinct (map enqueue_id xs) \<and> length xs = M + k \<and> 1 \<le> k"
  from a have d: "distinct (map enqueue_id xs)"
    by (rule conjunct1)
  have disj: "set (map enqueue_id xs) \<inter> fmdom' (runningAgents ?init) = {}"
    by (simp add: constructor_def)
  have cap: "int (Map_size (runningAgents ?init)) + int M = maxConcurrent ?init"
    by (simp add: constructor_def Map_size_fmempty)
  note many = enqueue_many [OF d disj cap]
  from many a show "getRunningCount ?s = M"
    by (simp add: getRunningCount_def constructor_def Map_size_fmempty)
  from many a show "getQueuedCount ?s = k"
    by (simp add: getQueuedCount_def constructor_def)
  from many show "fmdom' (runningAgents ?s) = set (take M (map enqueue_id xs))"
    by (simp add: constructor_def)
  from many show "queuedAgents ?s = map enqueued_task (drop M xs)"
    by (simp add: constructor_def)
qed

theorem enqueue_runs_or_queues_witness:
  "int (getRunningCount (constructor (Some 2) :: unit AgentQueueManager))
     < maxConcurrent (constructor (Some 2) :: unit AgentQueueManager)
   \<and> fst (enqueueAgent 10 11 ''agent-1'' (''researcher'', ''test1'')
            (constructor (Some 2) :: unit AgentQueueManager)) = Running
   \<and> \<not> int (getRunningCount three_enqueued) < maxConcurrent three_enqueued
   \<and> fst (enqueueAgent 10 11 ''agent-1'' (''researcher'', ''test1'') three_enqueued) = Queued
   \<and> distinct (map enqueue_id test_enqueues) \<and> length test_enqueues = 2 + 1 \<and> (1::nat) \<le> 1
   \<and> getRunningCount (snd (calls (map enqueue_call test_enqueues)
        (constructor (Some (int 2)) :: unit AgentQueueManager))) = 2
   \<and> getQueuedCount (snd (calls (map enqueue_call test_enqueues)
        (constructor (Some (int 2)) :: unit AgentQueueManager))) = 1"
proof -
  have free: "int (getRunningCount (constructor (Some 2) :: unit AgentQueueManager))
     < maxConcurrent (constructor (Some 2) :: unit AgentQueueManager)"
    by code_simp
  have full: "\<not> int (getRunningCount three_enqueued) < maxConcurrent three_enqueued"
    by code_simp
  have d: "distinct (map enqueue_id test_enqueues)"
    by simp
  have l: "length test_enqueues = 2 + 1"
    by simp
  have k: "(1::nat) \<le> 1"
    by simp
  note T = enqueue_runs_or_queues
         [where ?'cb = unit,
          of "constructor (Some 2)" 10 11 "''agent-1''" "(''researcher'', ''test1'')"
             three_enqueued test_enqueues 2 1]
  note r = mp [OF T [THEN conjunct1] free, THEN conjunct1]
  note q = mp [OF T [THEN conjunct2, THEN conjunct1] full, THEN conjunct1]
  note m = mp [OF T [THEN conjunct2, THEN conjunct2] conjI [OF d conjI [OF l k]]]
  from free r full q d l k m show ?thesis
    by blast
qed

subsection \<open>Ids when the caller enqueues unknown ids only\<close>

lemma ids_unique_iff:
  "ids_unique s \<longleftrightarrow>
     distinct (queued_ids s) \<and> (\<forall>i \<in> set (queued_ids s). fmlookup (runningAgents s) i = None)"
  by (simp add: ids_unique_def list_all_iff isAgentRunning_def)

lemma ids_unique_spawnNextQueued:
  assumes "ids_unique s"
  shows "ids_unique (snd (spawnNextQueued w st s))"
proof (cases "queuedAgents s = [] \<or> maxConcurrent s \<le> int (Map_size (runningAgents s))")
  case True
  then have "spawnNextQueued w st s = ([], s)"
    by (rule spawnNextQueued_idle)
  with assms show ?thesis by simp
next
  case False
  then obtain t rest where q: "queuedAgents s = t # rest"
    and free: "int (Map_size (runningAgents s)) < maxConcurrent s"
    by (auto simp: neq_Nil_conv)
  from assms show ?thesis
    by (auto simp: ids_unique_iff queued_ids_def q spawnNextQueued_promote [OF q free]
          startAgent_eq)
qed

lemma ids_unique_call:
  assumes "ids_unique s" and "fresh_enqueues [c] s"
  shows "ids_unique (snd (call c s))"
proof (cases c)
  case (SetSpawnCallback cb)
  with assms(1) show ?thesis
    by (simp add: ids_unique_iff queued_ids_def setSpawnCallback_def)
next
  case (EnqueueAgent ne ns i t)
  with assms(2) have new: "fmlookup (runningAgents s) i = None" "i \<notin> set (queued_ids s)"
    by (simp_all add: isAgentRunning_def)
  show ?thesis
  proof (cases "int (Map_size (runningAgents s)) < maxConcurrent s")
    case True
    with assms(1) new show ?thesis
      by (auto simp: EnqueueAgent ids_unique_iff queued_ids_def enqueueAgent_start startAgent_eq)
  next
    case False
    with assms(1) new show ?thesis
      by (auto simp: EnqueueAgent ids_unique_iff queued_ids_def enqueueAgent_queue)
  qed
next
  case c: (MarkAgentComplete d w st i)
  show ?thesis
  proof (cases "fmlookup (runningAgents s) i")
    case None
    with assms(1) c show ?thesis by (simp add: markAgentComplete_unknown)
  next
    case (Some a)
    from assms(1) have "ids_unique (s\<lparr> runningAgents := fmdrop i (runningAgents s) \<rparr>)"
      by (simp add: ids_unique_iff queued_ids_def)
    then show ?thesis
      by (simp add: c markAgentComplete_running [OF Some] ids_unique_spawnNextQueued)
  qed
qed

lemma fresh_enqueues_Cons:
  "fresh_enqueues (c # cs) s \<longleftrightarrow> fresh_enqueues [c] s \<and> fresh_enqueues cs (snd (call c s))"
  by (cases c) simp_all

lemma ids_unique_calls:
  "ids_unique s \<Longrightarrow> fresh_enqueues cs s \<Longrightarrow> ids_unique (snd (calls cs s))"
proof (induction cs arbitrary: s)
  case Nil
  then show ?case by simp
next
  case (Cons c cs)
  from Cons.prems(2) have one: "fresh_enqueues [c] s"
    and rest: "fresh_enqueues cs (snd (call c s))"
    using fresh_enqueues_Cons [of c cs s] by simp_all
  from Cons.prems(1) one have "ids_unique (snd (call c s))"
    by (rule ids_unique_call)
  from Cons.IH [OF this rest] show ?case
    by (simp only: snd_calls_Cons)
qed

text \<open>
  C5, as the claim states it, fails. \<^verbatim>\<open>enqueueAgent\<close> does not look the id up: an id
  enqueued while it runs is both running and queued, and enqueued once more it is in
  the queue twice and counted twice by \<^verbatim>\<open>getQueuedCount\<close>.
\<close>

theorem known_id_enqueued_again_counterexample:
  "isAgentRunning ''agent-1'' enqueued_again
   \<and> ''agent-1'' \<in> set (queued_ids enqueued_again)
   \<and> queued_ids enqueued_thrice = [''agent-1'', ''agent-1'']
   \<and> \<not> distinct (queued_ids enqueued_thrice)
   \<and> getQueuedCount enqueued_thrice = 2"
  by code_simp

text \<open>
  C5, amended. Let every \<^verbatim>\<open>enqueueAgent\<close> call of a sequence pass an id that is neither
  running nor queued when it is called. Then, in the state the sequence reaches from
  construction, no id is in the queue twice and no id is both queued and running.
  \<^verbatim>\<open>enqueueAgent\<close> itself does not reject an id that is already known.
\<close>

theorem fresh_ids_stay_unique:
  fixes cs :: "'cb method_call list"
  assumes "fresh_enqueues cs (constructor arg)"
  shows "distinct (queued_ids (snd (calls cs (constructor arg))))
       \<and> (\<forall>i. \<not> (isAgentRunning i (snd (calls cs (constructor arg)))
                 \<and> i \<in> set (queued_ids (snd (calls cs (constructor arg))))))"
proof -
  let ?init = "constructor arg :: 'cb AgentQueueManager"
  have "ids_unique ?init"
    by (simp add: ids_unique_iff queued_ids_def constructor_def)
  then have "ids_unique (snd (calls cs ?init))"
    using assms by (rule ids_unique_calls)
  then show ?thesis
    by (auto simp: ids_unique_iff isAgentRunning_def)
qed

theorem fresh_ids_stay_unique_witness:
  "fresh_enqueues
     [EnqueueAgent 10 11 ''agent-1'' (''researcher'', ''test1''),
      EnqueueAgent 12 13 ''agent-2'' (''coder'', ''test2''),
      EnqueueAgent 14 15 ''agent-3'' (''debugger'', ''test3''),
      MarkAgentComplete 20 21 22 ''agent-1'',
      EnqueueAgent 30 31 ''agent-1'' (''researcher'', ''again'')]
     (constructor (Some 2) :: unit AgentQueueManager)
   \<and> distinct (queued_ids (snd (calls
        [EnqueueAgent 10 11 ''agent-1'' (''researcher'', ''test1''),
         EnqueueAgent 12 13 ''agent-2'' (''coder'', ''test2''),
         EnqueueAgent 14 15 ''agent-3'' (''debugger'', ''test3''),
         MarkAgentComplete 20 21 22 ''agent-1'',
         EnqueueAgent 30 31 ''agent-1'' (''researcher'', ''again'')]
        (constructor (Some 2) :: unit AgentQueueManager))))
   \<and> \<not> (isAgentRunning ''agent-1'' (snd (calls
        [EnqueueAgent 10 11 ''agent-1'' (''researcher'', ''test1''),
         EnqueueAgent 12 13 ''agent-2'' (''coder'', ''test2''),
         EnqueueAgent 14 15 ''agent-3'' (''debugger'', ''test3''),
         MarkAgentComplete 20 21 22 ''agent-1'',
         EnqueueAgent 30 31 ''agent-1'' (''researcher'', ''again'')]
        (constructor (Some 2) :: unit AgentQueueManager)))
      \<and> ''agent-1'' \<in> set (queued_ids (snd (calls
        [EnqueueAgent 10 11 ''agent-1'' (''researcher'', ''test1''),
         EnqueueAgent 12 13 ''agent-2'' (''coder'', ''test2''),
         EnqueueAgent 14 15 ''agent-3'' (''debugger'', ''test3''),
         MarkAgentComplete 20 21 22 ''agent-1'',
         EnqueueAgent 30 31 ''agent-1'' (''researcher'', ''again'')]
        (constructor (Some 2) :: unit AgentQueueManager)))))"
proof -
  have f: "fresh_enqueues
     [EnqueueAgent 10 11 ''agent-1'' (''researcher'', ''test1''),
      EnqueueAgent 12 13 ''agent-2'' (''coder'', ''test2''),
      EnqueueAgent 14 15 ''agent-3'' (''debugger'', ''test3''),
      MarkAgentComplete 20 21 22 ''agent-1'',
      EnqueueAgent 30 31 ''agent-1'' (''researcher'', ''again'')]
     (constructor (Some 2) :: unit AgentQueueManager)"
    by code_simp
  from fresh_ids_stay_unique [OF f] f show ?thesis
    by blast
qed

subsection \<open>Whether an id is running when a call returns\<close>

lemma enqueueAgent_Running_is_running:
  assumes "fst (enqueueAgent ne ns i t s) = Running"
  shows "isAgentRunning i (snd (snd (enqueueAgent ne ns i t s)))"
proof -
  from assms have "int (Map_size (runningAgents s)) < maxConcurrent s"
    by (cases "int (Map_size (runningAgents s)) < maxConcurrent s")
       (simp_all add: enqueueAgent_queue)
  then show ?thesis
    by (simp add: enqueueAgent_start startAgent_eq isAgentRunning_def)
qed

text \<open>An id is absent when it is neither running nor queued.\<close>

lemma spawnNextQueued_keeps_absent:
  assumes "fmlookup (runningAgents s) i = None" and "i \<notin> task_id ` set (queuedAgents s)"
  shows "fmlookup (runningAgents (snd (spawnNextQueued w st s))) i = None
       \<and> i \<notin> task_id ` set (queuedAgents (snd (spawnNextQueued w st s)))"
proof (cases "queuedAgents s = [] \<or> maxConcurrent s \<le> int (Map_size (runningAgents s))")
  case True
  then have "spawnNextQueued w st s = ([], s)"
    by (rule spawnNextQueued_idle)
  with assms show ?thesis by simp
next
  case False
  then obtain t rest where q: "queuedAgents s = t # rest"
    and free: "int (Map_size (runningAgents s)) < maxConcurrent s"
    by (auto simp: neq_Nil_conv)
  from assms show ?thesis
    by (auto simp: q spawnNextQueued_promote [OF q free] startAgent_eq)
qed

lemma markAgentComplete_leaves_absent:
  assumes "i \<notin> task_id ` set (queuedAgents s)"
  shows "fmlookup (runningAgents (snd (markAgentComplete d w st i s))) i = None
       \<and> i \<notin> task_id ` set (queuedAgents (snd (markAgentComplete d w st i s)))"
proof (cases "fmlookup (runningAgents s) i")
  case None
  with assms show ?thesis by (simp add: markAgentComplete_unknown)
next
  case (Some a)
  let ?s1 = "s\<lparr> runningAgents := fmdrop i (runningAgents s) \<rparr>"
  have "fmlookup (runningAgents ?s1) i = None" and "i \<notin> task_id ` set (queuedAgents ?s1)"
    using assms by simp_all
  then show ?thesis
    unfolding markAgentComplete_running [OF Some] snd_conv
    by (rule spawnNextQueued_keeps_absent)
qed

lemma call_keeps_absent:
  assumes "fmlookup (runningAgents s) i = None \<and> i \<notin> task_id ` set (queuedAgents s)"
      and "\<not> enqueues i c"
  shows "fmlookup (runningAgents (snd (call c s))) i = None
       \<and> i \<notin> task_id ` set (queuedAgents (snd (call c s)))"
proof (cases c)
  case (SetSpawnCallback cb)
  with assms(1) show ?thesis by (simp add: setSpawnCallback_def)
next
  case (EnqueueAgent ne ns j t)
  with assms(2) have "j \<noteq> i" by simp
  with assms(1) show ?thesis
    by (cases "int (Map_size (runningAgents s)) < maxConcurrent s")
       (simp_all add: EnqueueAgent enqueueAgent_start enqueueAgent_queue startAgent_eq)
next
  case c: (MarkAgentComplete d w st j)
  show ?thesis
  proof (cases "fmlookup (runningAgents s) j")
    case None
    with assms(1) c show ?thesis by (simp add: markAgentComplete_unknown)
  next
    case (Some a)
    let ?s1 = "s\<lparr> runningAgents := fmdrop j (runningAgents s) \<rparr>"
    have "fmlookup (runningAgents ?s1) i = None" and "i \<notin> task_id ` set (queuedAgents ?s1)"
      using assms(1) by simp_all
    then have "fmlookup (runningAgents (snd (spawnNextQueued w st ?s1))) i = None
       \<and> i \<notin> task_id ` set (queuedAgents (snd (spawnNextQueued w st ?s1)))"
      by (rule spawnNextQueued_keeps_absent)
    then show ?thesis
      by (simp add: c markAgentComplete_running [OF Some])
  qed
qed

lemma call_keeps_running:
  assumes "isAgentRunning i s" and "\<not> completes i c"
  shows "isAgentRunning i (snd (call c s))"
proof (cases c)
  case (SetSpawnCallback cb)
  with assms(1) show ?thesis by (simp add: setSpawnCallback_def isAgentRunning_def)
next
  case (EnqueueAgent ne ns j t)
  with assms(1) show ?thesis
    by (cases "int (Map_size (runningAgents s)) < maxConcurrent s")
       (simp_all add: enqueueAgent_start enqueueAgent_queue startAgent_eq isAgentRunning_def)
next
  case c: (MarkAgentComplete d w st j)
  with assms(2) have ne: "j \<noteq> i" by simp
  show ?thesis
  proof (cases "fmlookup (runningAgents s) j")
    case None
    with assms(1) c show ?thesis by (simp add: markAgentComplete_unknown)
  next
    case (Some a)
    let ?s1 = "s\<lparr> runningAgents := fmdrop j (runningAgents s) \<rparr>"
    from assms(1) ne have r1: "fmlookup (runningAgents ?s1) i \<noteq> None"
      by (simp add: isAgentRunning_def)
    have "fmlookup (runningAgents (snd (spawnNextQueued w st ?s1))) i \<noteq> None"
    proof (cases "queuedAgents ?s1 = [] \<or> maxConcurrent ?s1 \<le> int (Map_size (runningAgents ?s1))")
      case True
      then have "spawnNextQueued w st ?s1 = ([], ?s1)"
        by (rule spawnNextQueued_idle)
      with r1 show ?thesis by simp
    next
      case False
      then obtain t rest where q: "queuedAgents ?s1 = t # rest"
        and free: "int (Map_size (runningAgents ?s1)) < maxConcurrent ?s1"
        by (auto simp: neq_Nil_conv)
      from r1 show ?thesis
        by (simp add: spawnNextQueued_promote [OF q free] startAgent_eq)
    qed
    then show ?thesis
      by (simp add: c markAgentComplete_running [OF Some] isAgentRunning_def)
  qed
qed

text \<open>
  What every admitted call preserves holds when the calls return, the calls of the
  callbacks included, if the callbacks make admitted calls only.
\<close>

lemma calls_with_callbacks_invariant:
  assumes step: "\<And>c s. P s \<Longrightarrow> ok c \<Longrightarrow> P (snd (call c s))"
      and react: "\<forall>cb t u. \<forall>c \<in> set (react cb t u). ok c"
  shows "P s \<Longrightarrow> \<forall>c \<in> set cs. ok c \<Longrightarrow> calls_with_callbacks fuel react cs s = Some r \<Longrightarrow> P (snd r)"
proof (induction fuel arbitrary: cs s r)
  case 0
  then show ?case by (cases cs) auto
next
  case (Suc fuel)
  show ?case
  proof (cases cs)
    case Nil
    with Suc.prems show ?thesis by auto
  next
    case (Cons c cs')
    let ?evs = "fst (call c s)"
    let ?s1 = "snd (call c s)"
    let ?nested = "concat (map (\<lambda>(cb, t). react cb t ?s1) (callback_calls ?evs))"
    from Suc.prems(3) obtain r' where
      rest: "calls_with_callbacks fuel react (?nested @ cs') ?s1 = Some r'" and r: "snd r = snd r'"
      by (auto simp: Cons split_def Let_def split: option.splits)
    from Suc.prems(1,2) have p1: "P ?s1"
      by (intro step) (simp_all add: Cons)
    have ok: "\<forall>c \<in> set (?nested @ cs'). ok c"
      using Suc.prems(2) react by (auto simp: Cons)
    have "P (snd r')"
      using p1 ok rest by (rule Suc.IH)
    with r show ?thesis by simp
  qed
qed

lemma calls_with_callbacks_single:
  assumes "calls_with_callbacks fuel react [c] s \<noteq> None"
  shows "\<exists>n r. fuel = Suc n
           \<and> calls_with_callbacks n react
                (concat (map (\<lambda>(cb, t). react cb t (snd (call c s))) (callback_calls (fst (call c s)))))
                (snd (call c s)) = Some r
           \<and> snd (the (calls_with_callbacks fuel react [c] s)) = snd r"
proof (cases fuel)
  case 0
  with assms show ?thesis by simp
next
  case (Suc n)
  with assms show ?thesis
    by (auto simp: split_def Let_def split: option.splits)
qed

text \<open>
  C8, as the claim states it, fails. On a manager of capacity 1 whose callback completes
  the task it is called with, \<^verbatim>\<open>enqueueAgent\<close> of \<^verbatim>\<open>A\<close> stores \<^verbatim>\<open>A\<close>, calls the callback, which
  deletes \<^verbatim>\<open>A\<close>, and then returns \<^verbatim>\<open>'running'\<close>: when the call returns, \<^verbatim>\<open>A\<close> is not running.
\<close>

theorem enqueue_running_completed_by_callback_counterexample:
  "fst (enqueueAgent 10 11 ''A'' (''researcher'', ''first'') one_slot_with_callback) = Running
   \<and> calls_with_callbacks 2 complete_at_once
        [EnqueueAgent 10 11 ''A'' (''researcher'', ''first'')] one_slot_with_callback \<noteq> None
   \<and> fst (the (calls_with_callbacks 2 complete_at_once
        [EnqueueAgent 10 11 ''A'' (''researcher'', ''first'')] one_slot_with_callback))
       = [LogStarted ''A'' ''researcher'' 1 1,
          CallbackCalled 7
            \<lparr> task_id = ''A'', task_type = ''researcher'', prompt = ''first'', enqueuedAt = 10 \<rparr>,
          LogCompleted ''A'' ''researcher'' 9]
   \<and> \<not> isAgentRunning ''A'' (snd (the (calls_with_callbacks 2 complete_at_once
        [EnqueueAgent 10 11 ''A'' (''researcher'', ''first'')] one_slot_with_callback)))"
  by code_simp

text \<open>
  C8, amended. When \<^verbatim>\<open>enqueueAgent\<close> returns \<^verbatim>\<open>'running'\<close> for an id, the id is running in
  the state in which the callback is called; and it is running when the call returns,
  provided the callbacks make no \<^verbatim>\<open>markAgentComplete\<close> call for that id during the call
  (so in particular when no callback is set or the callback does not call the manager).
  When an id is running and no queued task carries that id (it was not enqueued
  again), the id is not running in the state \<^verbatim>\<open>markAgentComplete\<close> of that id leaves;
  and it is not running when the call returns, provided the callbacks make no
  \<^verbatim>\<open>enqueueAgent\<close> call for that id during the call. With callbacks that make no calls,
  a call returns in the state the method leaves.
\<close>

theorem isAgentRunning_after_enqueue_and_complete:
  fixes s s' :: "'cb AgentQueueManager"
  shows "(fst (enqueueAgent ne ns ident task s) = Running \<longrightarrow>
            isAgentRunning ident (snd (snd (enqueueAgent ne ns ident task s))))
       \<and> (fst (enqueueAgent ne ns ident task s) = Running
            \<and> (\<forall>cb t u. \<forall>c \<in> set (react cb t u). \<not> completes ident c)
            \<and> calls_with_callbacks fuel react [EnqueueAgent ne ns ident task] s \<noteq> None \<longrightarrow>
            isAgentRunning ident
              (snd (the (calls_with_callbacks fuel react [EnqueueAgent ne ns ident task] s))))
       \<and> (isAgentRunning ident s' \<and> ident \<notin> task_id ` set (queuedAgents s') \<longrightarrow>
            \<not> isAgentRunning ident (snd (markAgentComplete d w st ident s')))
       \<and> (isAgentRunning ident s' \<and> ident \<notin> task_id ` set (queuedAgents s')
            \<and> (\<forall>cb t u. \<forall>c \<in> set (react' cb t u). \<not> enqueues ident c)
            \<and> calls_with_callbacks fuel' react' [MarkAgentComplete d w st ident] s' \<noteq> None \<longrightarrow>
            \<not> isAgentRunning ident
              (snd (the (calls_with_callbacks fuel' react' [MarkAgentComplete d w st ident] s'))))
       \<and> calls_with_callbacks (Suc n) (\<lambda>cb t u. []) [c] s = Some (call c s)"
proof (intro conjI impI)
  assume "fst (enqueueAgent ne ns ident task s) = Running"
  then show "isAgentRunning ident (snd (snd (enqueueAgent ne ns ident task s)))"
    by (rule enqueueAgent_Running_is_running)
next
  let ?c = "EnqueueAgent ne ns ident task :: 'cb method_call"
  assume a: "fst (enqueueAgent ne ns ident task s) = Running
      \<and> (\<forall>cb t u. \<forall>c \<in> set (react cb t u). \<not> completes ident c)
      \<and> calls_with_callbacks fuel react [?c] s \<noteq> None"
  then have ret: "calls_with_callbacks fuel react [?c] s \<noteq> None"
    and quiet: "\<forall>cb t u. \<forall>c \<in> set (react cb t u). \<not> completes ident c"
    by simp_all
  from a have start: "isAgentRunning ident (snd (call ?c s))"
    by (simp add: enqueueAgent_Running_is_running)
  from calls_with_callbacks_single [OF ret] obtain k r where
    rest: "calls_with_callbacks k react
        (concat (map (\<lambda>(cb, t). react cb t (snd (call ?c s))) (callback_calls (fst (call ?c s)))))
        (snd (call ?c s)) = Some r"
    and r: "snd (the (calls_with_callbacks fuel react [?c] s)) = snd r"
    by blast
  have nested: "\<forall>c \<in> set (concat (map (\<lambda>(cb, t). react cb t (snd (call ?c s)))
      (callback_calls (fst (call ?c s))))). \<not> completes ident c"
    using quiet by auto
  have "isAgentRunning ident (snd r)"
    using call_keeps_running quiet start nested rest
    by (rule calls_with_callbacks_invariant [where P = "isAgentRunning ident"
          and ok = "\<lambda>c. \<not> completes ident c"])
  with r show "isAgentRunning ident (snd (the (calls_with_callbacks fuel react [?c] s)))"
    by simp
next
  assume "isAgentRunning ident s' \<and> ident \<notin> task_id ` set (queuedAgents s')"
  then have "ident \<notin> task_id ` set (queuedAgents s')"
    by (rule conjunct2)
  from markAgentComplete_leaves_absent [OF this, of d w st]
  show "\<not> isAgentRunning ident (snd (markAgentComplete d w st ident s'))"
    by (simp add: isAgentRunning_def)
next
  let ?c = "MarkAgentComplete d w st ident :: 'cb method_call"
  let ?absent = "\<lambda>u :: 'cb AgentQueueManager.
      fmlookup (runningAgents u) ident = None \<and> ident \<notin> task_id ` set (queuedAgents u)"
  assume a: "isAgentRunning ident s' \<and> ident \<notin> task_id ` set (queuedAgents s')
      \<and> (\<forall>cb t u. \<forall>c \<in> set (react' cb t u). \<not> enqueues ident c)
      \<and> calls_with_callbacks fuel' react' [?c] s' \<noteq> None"
  then have ret: "calls_with_callbacks fuel' react' [?c] s' \<noteq> None"
    and quiet: "\<forall>cb t u. \<forall>c \<in> set (react' cb t u). \<not> enqueues ident c"
    and nq: "ident \<notin> task_id ` set (queuedAgents s')"
    by simp_all
  from markAgentComplete_leaves_absent [OF nq, of d w st]
  have start: "?absent (snd (call ?c s'))"
    by simp
  from calls_with_callbacks_single [OF ret] obtain k r where
    rest: "calls_with_callbacks k react'
        (concat (map (\<lambda>(cb, t). react' cb t (snd (call ?c s'))) (callback_calls (fst (call ?c s')))))
        (snd (call ?c s')) = Some r"
    and r: "snd (the (calls_with_callbacks fuel' react' [?c] s')) = snd r"
    by blast
  have nested: "\<forall>c \<in> set (concat (map (\<lambda>(cb, t). react' cb t (snd (call ?c s')))
      (callback_calls (fst (call ?c s'))))). \<not> enqueues ident c"
    using quiet by auto
  have "?absent (snd r)"
    using call_keeps_absent quiet start nested rest
    by (rule calls_with_callbacks_invariant [where P = ?absent
          and ok = "\<lambda>c. \<not> enqueues ident c"])
  with r show "\<not> isAgentRunning ident (snd (the (calls_with_callbacks fuel' react' [?c] s')))"
    by (simp add: isAgentRunning_def)
next
  have none: "concat (map (\<lambda>p. []) xs) = ([] :: 'cb method_call list)"
    for xs :: "('cb \<times> AgentTask) list"
    by (induction xs) auto
  show "calls_with_callbacks (Suc n) (\<lambda>cb t u. []) [c] s = Some (call c s)"
    by (simp add: split_def Let_def none)
qed

theorem isAgentRunning_after_enqueue_and_complete_witness:
  "fst (enqueueAgent 10 11 ''A'' (''researcher'', ''first'') one_slot_with_callback) = Running
   \<and> calls_with_callbacks 2 complete_agent_0
        [EnqueueAgent 10 11 ''A'' (''researcher'', ''first'')] one_slot_with_callback \<noteq> None
   \<and> isAgentRunning ''A'' (snd (the (calls_with_callbacks 2 complete_agent_0
        [EnqueueAgent 10 11 ''A'' (''researcher'', ''first'')] one_slot_with_callback)))
   \<and> isAgentRunning ''A'' (snd (calls one_slot_calls (constructor (Some 1))))
   \<and> ''A'' \<notin> task_id ` set (queuedAgents (snd (calls one_slot_calls (constructor (Some 1)))))
   \<and> calls_with_callbacks 3 complete_agent_0
        [MarkAgentComplete 30 31 32 ''A''] (snd (calls one_slot_calls (constructor (Some 1)))) \<noteq> None
   \<and> \<not> isAgentRunning ''A'' (snd (markAgentComplete 30 31 32 ''A''
        (snd (calls one_slot_calls (constructor (Some 1))))))
   \<and> \<not> isAgentRunning ''A'' (snd (the (calls_with_callbacks 3 complete_agent_0
        [MarkAgentComplete 30 31 32 ''A''] (snd (calls one_slot_calls (constructor (Some 1)))))))"
proof -
  let ?new = "one_slot_with_callback"
  let ?full = "snd (calls one_slot_calls (constructor (Some 1)))"
  let ?enq = "EnqueueAgent 10 11 ''A'' (''researcher'', ''first'') :: nat method_call"
  have h1: "fst (enqueueAgent 10 11 ''A'' (''researcher'', ''first'') ?new) = Running"
    by code_simp
  have h2: "\<forall>cb t u. \<forall>c \<in> set (complete_agent_0 cb t (u :: nat AgentQueueManager)). \<not> completes ''A'' c"
    by (simp add: complete_agent_0_def)
  have h3: "calls_with_callbacks 2 complete_agent_0 [?enq] ?new \<noteq> None"
    by code_simp
  have h4: "isAgentRunning ''A'' ?full"
    by code_simp
  have h5: "''A'' \<notin> task_id ` set (queuedAgents ?full)"
    by code_simp
  have h6: "\<forall>cb t u. \<forall>c \<in> set (complete_agent_0 cb t (u :: nat AgentQueueManager)). \<not> enqueues ''A'' c"
    by (simp add: complete_agent_0_def)
  have h7: "calls_with_callbacks 3 complete_agent_0 [MarkAgentComplete 30 31 32 ''A''] ?full \<noteq> None"
    by code_simp
  note T = isAgentRunning_after_enqueue_and_complete
         [where ?'cb = nat,
          of 10 11 "''A''" "(''researcher'', ''first'')" ?new complete_agent_0 2
             ?full 30 31 32 complete_agent_0 3 0 ?enq]
  note a = mp [OF T [THEN conjunct2, THEN conjunct1] conjI [OF h1 conjI [OF h2 h3]]]
  note b = mp [OF T [THEN conjunct2, THEN conjunct2, THEN conjunct1] conjI [OF h4 h5]]
  note c = mp [OF T [THEN conjunct2, THEN conjunct2, THEN conjunct2, THEN conjunct1]
                conjI [OF h4 conjI [OF h5 conjI [OF h6 h7]]]]
  from h1 h3 a h4 h5 h7 b c show ?thesis
    by (intro conjI)
qed

end
